theory Spec2Isabelle
  imports Complex_Main
begin

section \<open>Path strings (the functions of \<^verbatim>\<open>posixpath\<close> the program calls)\<close>

text \<open>
  \<^verbatim>\<open>process_source.py\<close> computes on path strings with \<^verbatim>\<open>os.path\<close> and \<^verbatim>\<open>str\<close> methods.
  The program is modelled on a POSIX platform, where \<^verbatim>\<open>os.sep\<close> is \<^verbatim>\<open>/\<close>. A Python string
  is a \<^typ>\<open>string\<close>; the definitions below follow CPython's \<^verbatim>\<open>posixpath.py\<close> and
  \<^verbatim>\<open>genericpath.py\<close> statement by statement.
\<close>

definition sep :: char where
  "sep = CHR ''/''"

text \<open>
  \<^verbatim>\<open>s.split(os.sep)\<close>: the pieces between separators. The result is never an empty list,
  so the last case below does not arise.
\<close>

fun split_sep :: "string \<Rightarrow> string list" where
  "split_sep [] = [[]]"
| "split_sep (c # cs) =
     (if c = sep then [] # split_sep cs
      else (case split_sep cs of
              piece # pieces \<Rightarrow> (c # piece) # pieces
            | [] \<Rightarrow> [[c]]))"

text \<open>\<^verbatim>\<open>os.sep.join(parts)\<close>.\<close>

fun sep_join :: "string list \<Rightarrow> string" where
  "sep_join [] = []"
| "sep_join [x] = x"
| "sep_join (x # y # ys) = x @ sep # sep_join (y # ys)"

definition startswith_sep :: "string \<Rightarrow> bool" where
  "startswith_sep p = (case p of [] \<Rightarrow> False | c # _ \<Rightarrow> c = sep)"

definition endswith_sep :: "string \<Rightarrow> bool" where
  "endswith_sep p = (p \<noteq> [] \<and> last p = sep)"

text \<open>
  \<^verbatim>\<open>os.path.join(a, b)\<close>: one round of the loop of \<^verbatim>\<open>posixpath.join\<close>. An absolute \<open>b\<close>
  discards what came before; a separator is inserted unless the path so far is empty or
  ends in one. \<^verbatim>\<open>os.path.join(a, b, c)\<close> runs the loop twice.
\<close>

definition path_join :: "string \<Rightarrow> string \<Rightarrow> string" where
  "path_join path b =
     (if startswith_sep b then b
      else if path = [] \<or> endswith_sep path then path @ b
      else path @ sep # b)"

definition path_join3 :: "string \<Rightarrow> string \<Rightarrow> string \<Rightarrow> string" where
  "path_join3 a b c = path_join (path_join a b) c"

text \<open>
  \<^verbatim>\<open>p[:i]\<close> and \<^verbatim>\<open>p[i:]\<close> for \<^verbatim>\<open>i = p.rfind('/') + 1\<close>: the path up to and including its
  last separator, and what follows it.
\<close>

definition upto_last_sep :: "string \<Rightarrow> string" where
  "upto_last_sep p = rev (dropWhile (\<lambda>c. c \<noteq> sep) (rev p))"

definition basename :: "string \<Rightarrow> string" where
  "basename p = rev (takeWhile (\<lambda>c. c \<noteq> sep) (rev p))"

definition rstrip_sep :: "string \<Rightarrow> string" where
  "rstrip_sep h = rev (dropWhile (\<lambda>c. c = sep) (rev h))"

definition dirname :: "string \<Rightarrow> string" where
  "dirname p =
     (let head = upto_last_sep p
      in if head \<noteq> [] \<and> head \<noteq> replicate (length head) sep then rstrip_sep head else head)"

text \<open>
  \<^verbatim>\<open>posixpath.normpath\<close>. One or two leading separators are kept, three or more count as
  one; empty and \<^verbatim>\<open>.\<close> components are dropped and \<^verbatim>\<open>..\<close> removes the component before it
  (the list \<open>new_comps\<close> grows and shrinks at its end).
\<close>

definition initial_slashes :: "string \<Rightarrow> nat" where
  "initial_slashes path =
     (if \<not> startswith_sep path then 0
      else if take 2 path = [sep, sep] \<and> take 3 path \<noteq> [sep, sep, sep] then 2
      else 1)"

fun norm_comps :: "nat \<Rightarrow> string list \<Rightarrow> string list \<Rightarrow> string list" where
  "norm_comps i new_comps [] = new_comps"
| "norm_comps i new_comps (cmp # comps) =
     (if cmp = [] \<or> cmp = ''.'' then norm_comps i new_comps comps
      else if cmp \<noteq> ''..'' \<or> (i = 0 \<and> new_comps = [])
              \<or> (new_comps \<noteq> [] \<and> last new_comps = ''..'')
        then norm_comps i (new_comps @ [cmp]) comps
      else if new_comps \<noteq> [] then norm_comps i (butlast new_comps) comps
      else norm_comps i new_comps comps)"

definition normpath :: "string \<Rightarrow> string" where
  "normpath path =
     (if path = [] then ''.''
      else let i = initial_slashes path;
               p = replicate i sep @ sep_join (norm_comps i [] (split_sep path))
           in if p = [] then ''.'' else p)"

text \<open>
  \<^verbatim>\<open>os.path.abspath\<close>. The working directory that \<^verbatim>\<open>os.getcwd()\<close> returns is the
  parameter \<open>working_dir\<close>.
\<close>

definition abspath :: "string \<Rightarrow> string \<Rightarrow> string" where
  "abspath working_dir path =
     normpath (if \<not> startswith_sep path then path_join working_dir path else path)"

text \<open>
  \<^verbatim>\<open>os.path.splitext\<close> (\<^verbatim>\<open>genericpath._splitext\<close>). \<open>rfind\<close> is \<^verbatim>\<open>str.rfind\<close> for one
  character, \<open>-1\<close> when it does not occur. The \<^verbatim>\<open>while\<close> loop walks the slice between
  the last separator and the last dot and returns at the first character that is not a
  dot; \<open>has_non_dot\<close> is that walk.
\<close>

definition rfind :: "char \<Rightarrow> string \<Rightarrow> int" where
  "rfind c p =
     (if c \<in> set p then int (length p) - 1 - int (length (takeWhile (\<lambda>x. x \<noteq> c) (rev p)))
      else - 1)"

fun has_non_dot :: "string \<Rightarrow> bool" where
  "has_non_dot [] = False"
| "has_non_dot (c # cs) = (if c \<noteq> CHR ''.'' then True else has_non_dot cs)"

definition splitext :: "string \<Rightarrow> string \<times> string" where
  "splitext p =
     (let sepIndex = rfind sep p;
          dotIndex = rfind (CHR ''.'') p;
          filenameIndex = sepIndex + 1
      in if dotIndex > sepIndex
            \<and> has_non_dot (take (nat (dotIndex - filenameIndex)) (drop (nat filenameIndex) p))
         then (take (nat dotIndex) p, drop (nat dotIndex) p)
         else (p, []))"

section \<open>The default output path\<close>

text \<open>
  \<^verbatim>\<open>_build_default_output_path(source_path)\<close>. \<^verbatim>\<open>parts.index("source_images")\<close> is the
  position of the first occurrence.
\<close>

definition sentinel :: string where
  "sentinel = ''source_images''"

definition index_of :: "string \<Rightarrow> string list \<Rightarrow> nat" where
  "index_of x parts = length (takeWhile (\<lambda>y. y \<noteq> x) parts)"

definition build_default_output_path :: "string \<Rightarrow> string \<Rightarrow> string" where
  "build_default_output_path working_dir source_path =
     (let abs_path = abspath working_dir source_path;
          parts = split_sep abs_path
      in if sentinel \<in> set parts then
           let idx = index_of sentinel parts;
               project_root = sep_join (take idx parts);
               remainder = sep_join (drop (idx + 1) parts)
           in path_join3 project_root ''processed_source_images'' (remainder @ ''_processed'')
         else
           let parent = dirname abs_path;
               base_name = basename abs_path
           in path_join parent (base_name @ ''_processed''))"

section \<open>Exceptions, the file system and the console\<close>

text \<open>
  An exception is a value; \<open>message\<close> is what \<^verbatim>\<open>str(e)\<close> gives in a log line. The program
  itself raises only \<^verbatim>\<open>ValueError\<close>; the others come from the operating system and the
  image library, and their texts are representative.
\<close>

datatype error =
    ValueError string
  | ZeroDivisionError string
  | FileExistsError string
  | FileNotFoundError string
  | NotADirectoryError string
  | IsADirectoryError string
  | OSError string

fun message :: "error \<Rightarrow> string" where
  "message (ValueError m) = m"
| "message (ZeroDivisionError m) = m"
| "message (FileExistsError m) = m"
| "message (FileNotFoundError m) = m"
| "message (NotADirectoryError m) = m"
| "message (IsADirectoryError m) = m"
| "message (OSError m) = m"

text \<open>
  The file system is a table from resolved locations (the list of component names below
  the root) to nodes. A directory carries the names \<^verbatim>\<open>os.listdir\<close> returns for it, in
  the platform's order. A name that is listed but has no node stands for an entry that
  is neither a directory nor a regular file for \<^verbatim>\<open>os.stat\<close> (a dangling link, say).
  Calls that fail leave the world as it is at the point of failure, so every command
  returns the world together with its outcome.
\<close>

type_synonym location = "string list"

type_synonym bytes = "nat list"

datatype node = Directory "string list" | Regular bytes

record world =
  cwd :: string
  fs :: "location \<Rightarrow> node option"
  stdout :: "string list"

text \<open>
  Path resolution is lexical: start at the root (a relative path is first joined to the
  working directory), skip empty and \<^verbatim>\<open>.\<close> components, step up on \<^verbatim>\<open>..\<close>. The empty path
  names nothing.
\<close>

fun walk :: "location \<Rightarrow> string list \<Rightarrow> location" where
  "walk k [] = k"
| "walk k (c # cs) =
     (if c = [] \<or> c = ''.'' then walk k cs
      else if c = ''..'' then walk (butlast k) cs
      else walk (k @ [c]) cs)"

definition resolve :: "world \<Rightarrow> string \<Rightarrow> location" where
  "resolve w p = walk [] (split_sep (path_join (cwd w) p))"

definition stat :: "world \<Rightarrow> string \<Rightarrow> node option" where
  "stat w p = (if p = [] then None else fs w (resolve w p))"

definition isdir :: "world \<Rightarrow> string \<Rightarrow> bool" where
  "isdir w p = (case stat w p of Some (Directory _) \<Rightarrow> True | _ \<Rightarrow> False)"

definition isfile :: "world \<Rightarrow> string \<Rightarrow> bool" where
  "isfile w p = (case stat w p of Some (Regular _) \<Rightarrow> True | _ \<Rightarrow> False)"

definition listdir :: "world \<Rightarrow> string \<Rightarrow> error + string list" where
  "listdir w p =
     (case stat w p of
        Some (Directory names) \<Rightarrow> Inr names
      | Some (Regular _) \<Rightarrow> Inl (NotADirectoryError p)
      | None \<Rightarrow> Inl (FileNotFoundError p))"

definition add_name :: "string \<Rightarrow> string list \<Rightarrow> string list" where
  "add_name n names = (if n \<in> set names then names else names @ [n])"

text \<open>
  \<^verbatim>\<open>os.mkdir\<close> and \<^verbatim>\<open>os.makedirs(name, exist_ok=True)\<close> on locations. \<^verbatim>\<open>makedirs\<close> first
  creates the parent when it does not exist, then calls \<^verbatim>\<open>mkdir\<close> and forgives its
  failure when the target is a directory already.
\<close>

definition mkdir_at ::
  "location \<Rightarrow> (location \<Rightarrow> node option) \<Rightarrow> error + (location \<Rightarrow> node option)" where
  "mkdir_at k m =
     (if k = [] \<or> m k \<noteq> None then Inl (FileExistsError (sep_join ([] # k)))
      else case m (butlast k) of
             Some (Directory names) \<Rightarrow>
               Inr (m(butlast k \<mapsto> Directory (add_name (last k) names), k \<mapsto> Directory []))
           | Some (Regular _) \<Rightarrow> Inl (NotADirectoryError (sep_join ([] # k)))
           | None \<Rightarrow> Inl (FileNotFoundError (sep_join ([] # k))))"

definition is_directory :: "node option \<Rightarrow> bool" where
  "is_directory n = (case n of Some (Directory _) \<Rightarrow> True | _ \<Rightarrow> False)"

definition is_regular :: "node option \<Rightarrow> bool" where
  "is_regular n = (case n of Some (Regular _) \<Rightarrow> True | _ \<Rightarrow> False)"

function makedirs_at ::
  "location \<Rightarrow> (location \<Rightarrow> node option) \<Rightarrow> error option \<times> (location \<Rightarrow> node option)" where
  "makedirs_at k m =
     (case (if k \<noteq> [] \<and> m (butlast k) = None then makedirs_at (butlast k) m else (None, m)) of
        (Some e, m1) \<Rightarrow> (Some e, m1)
      | (None, m1) \<Rightarrow>
          (case mkdir_at k m1 of
             Inr m2 \<Rightarrow> (None, m2)
           | Inl e \<Rightarrow> if is_directory (m1 k) then (None, m1) else (Some e, m1)))"
  by pat_completeness auto
termination
  by (relation "measure (\<lambda>(k, m). length k)") auto

declare makedirs_at.simps [simp del]

definition makedirs :: "world \<Rightarrow> string \<Rightarrow> error option \<times> world" where
  "makedirs w p =
     (if p = [] then (Some (FileNotFoundError p), w)
      else case makedirs_at (resolve w p) (fs w) of (r, m) \<Rightarrow> (r, w\<lparr>fs := m\<rparr>))"

definition print_line :: "string \<Rightarrow> world \<Rightarrow> world" where
  "print_line s w = w\<lparr>stdout := stdout w @ [s]\<rparr>"

section \<open>The image library\<close>

text \<open>
  Modelled from the spec: \<^verbatim>\<open>Image.open\<close>, \<^verbatim>\<open>ImageOps.fit\<close>, \<^verbatim>\<open>Image.resize\<close> and
  \<^verbatim>\<open>Image.save\<close> belong to the Pillow library, which is not part of the repository. An
  image is its pixel dimensions and its pixel data; the decoder, the resampling filter
  and the encoder are parameters, since what they compute on pixel data is outside the
  program. What is fixed here is the geometry section 4.2 of the spec describes
  (center-crop-to-fill), in the way the library arrives at it: \<open>fit\<close> chooses the
  largest box of the output's aspect ratio centred in the source, and \<open>resize\<close> scales
  exactly that box to the requested size. The program only asks for square sizes, for
  which every number below is an integer or a half, so the library's floating-point
  values are these rationals.
\<close>

record 'p image =
  image_size :: "nat \<times> nat"
  pixels :: 'p

type_synonym box = "rat \<times> rat \<times> rat \<times> rat"

record 'p pillow =
  decode :: "bytes \<Rightarrow> error + 'p image"
  resample :: "'p image \<Rightarrow> box \<Rightarrow> int \<times> int \<Rightarrow> 'p"
  encode :: "string \<Rightarrow> int \<Rightarrow> 'p image \<Rightarrow> error + bytes"

definition image_open :: "'p pillow \<Rightarrow> world \<Rightarrow> string \<Rightarrow> error + 'p image" where
  "image_open lib w p =
     (case stat w p of
        Some (Regular content) \<Rightarrow> decode lib content
      | Some (Directory _) \<Rightarrow> Inl (IsADirectoryError p)
      | None \<Rightarrow> Inl (FileNotFoundError p))"

definition resize :: "'p pillow \<Rightarrow> 'p image \<Rightarrow> int \<times> int \<Rightarrow> box \<Rightarrow> error + 'p image" where
  "resize lib img sz bx =
     (case (sz, bx, image_size img) of ((sx, sy), (x0, y0, x1, y1), (w, h)) \<Rightarrow>
        if (int w, int h) = sz \<and> bx = (0, 0, of_nat w, of_nat h) then Inr img
        else if sx < 1 \<or> sy < 1 then Inl (ValueError ''height and width must be > 0'')
        else if x0 < 0 \<or> y0 < 0 then Inl (ValueError ''box offset cannot be negative'')
        else if x1 > of_nat w \<or> y1 > of_nat h
          then Inl (ValueError ''box cannot exceed original image size'')
        else if x1 - x0 < 0 \<or> y1 - y0 < 0 then Inl (ValueError ''box cannot be empty'')
        else Inr \<lparr>image_size = (nat sx, nat sy), pixels = resample lib img bx sz\<rparr>)"

definition crop_box :: "nat \<times> nat \<Rightarrow> rat \<Rightarrow> box" where
  "crop_box live output_ratio =
     (case live of (w, h) \<Rightarrow>
        let live_size_ratio = of_nat w / of_nat h;
            (crop_width, crop_height) =
               (if live_size_ratio = output_ratio then (of_nat w, of_nat h)
                else if live_size_ratio \<ge> output_ratio then (output_ratio * of_nat h, of_nat h)
                else (of_nat w, of_nat w / output_ratio));
            crop_left = (of_nat w - crop_width) * (1 / 2);
            crop_top = (of_nat h - crop_height) * (1 / 2)
        in (crop_left, crop_top, crop_left + crop_width, crop_top + crop_height))"

definition fit :: "'p pillow \<Rightarrow> 'p image \<Rightarrow> int \<times> int \<Rightarrow> error + 'p image" where
  "fit lib img sz =
     (if snd (image_size img) = 0 then Inl (ZeroDivisionError ''float division by zero'')
      else if snd sz = 0 then Inl (ZeroDivisionError ''division by zero'')
      else resize lib img sz (crop_box (image_size img) (of_int (fst sz) / of_int (snd sz))))"

text \<open>
  \<^verbatim>\<open>img.save(path, format=..., quality=...)\<close> encodes the image and writes the bytes to the
  destination, creating it or replacing what it held. Section 7 of the spec takes a file
  write to be whole or not attempted, and so does \<open>save\<close>: when the encoder or the
  write fails, the world is unchanged. Writing needs the destination's directory to exist
  and the destination not to be a directory itself.
\<close>

definition write_file :: "world \<Rightarrow> string \<Rightarrow> bytes \<Rightarrow> error option \<times> world" where
  "write_file w p content =
     (if p = [] then (Some (FileNotFoundError p), w)
      else let k = resolve w p in
        case fs w k of
          Some (Directory _) \<Rightarrow> (Some (IsADirectoryError p), w)
        | Some (Regular _) \<Rightarrow> (None, w\<lparr>fs := (fs w)(k \<mapsto> Regular content)\<rparr>)
        | None \<Rightarrow>
            (if k = [] then (Some (FileNotFoundError p), w)
             else case fs w (butlast k) of
                    Some (Directory names) \<Rightarrow>
                      (None, w\<lparr>fs := (fs w)(butlast k \<mapsto> Directory (add_name (last k) names),
                                              k \<mapsto> Regular content)\<rparr>)
                  | Some (Regular _) \<Rightarrow> (Some (NotADirectoryError p), w)
                  | None \<Rightarrow> (Some (FileNotFoundError p), w)))"

definition save ::
  "'p pillow \<Rightarrow> 'p image \<Rightarrow> string \<Rightarrow> string \<Rightarrow> int \<Rightarrow> world \<Rightarrow> error option \<times> world" where
  "save lib img p fmt quality w =
     (case encode lib fmt quality img of
        Inl e \<Rightarrow> (Some e, w)
      | Inr content \<Rightarrow> write_file w p content)"

text \<open>The regular files of a world and their contents.\<close>

definition files :: "world \<Rightarrow> location \<Rightarrow> bytes option" where
  "files w k = (case fs w k of Some (Regular content) \<Rightarrow> Some content | _ \<Rightarrow> None)"

section \<open>The batch processor\<close>

text \<open>
  The body of the \<^verbatim>\<open>try\<close> statement of \<^verbatim>\<open>process_source_images\<close> for one file: open, fit,
  build the output path, save, report. It returns the exception that ended it, if any,
  and the world at that point.
\<close>

definition try_body ::
  "'p pillow \<Rightarrow> string \<Rightarrow> int \<Rightarrow> string \<Rightarrow> string \<Rightarrow> world \<Rightarrow> error option \<times> world" where
  "try_body lib input_img_path square_size output_folder_path filename w =
     (case image_open lib w input_img_path of
        Inl e \<Rightarrow> (Some e, w)
      | Inr img \<Rightarrow>
          (case fit lib img (square_size, square_size) of
             Inl e \<Rightarrow> (Some e, w)
           | Inr processed_img \<Rightarrow>
               let base_name = fst (splitext filename);
                   out_path = path_join output_folder_path (base_name @ ''.webp'')
               in (case save lib processed_img out_path ''WEBP'' 75 w of
                     (Some e, w1) \<Rightarrow> (Some e, w1)
                   | (None, w1) \<Rightarrow>
                       (None, print_line (''Processed: '' @ filename @ '' -> '' @ out_path) w1))))"

text \<open>
  One round of the \<^verbatim>\<open>for\<close> loop: \<^verbatim>\<open>continue\<close> on anything but a regular file; every
  exception of the \<^verbatim>\<open>try\<close> body is caught and reported.
\<close>

definition process_entry ::
  "'p pillow \<Rightarrow> string \<Rightarrow> int \<Rightarrow> string \<Rightarrow> string \<Rightarrow> world \<Rightarrow> world" where
  "process_entry lib source_folder_path square_size output_folder_path filename w =
     (let input_img_path = path_join source_folder_path filename
      in if \<not> isfile w input_img_path then w
         else (case try_body lib input_img_path square_size output_folder_path filename w of
                 (Some e, w1) \<Rightarrow> print_line (''Skipping '' @ filename @ '': '' @ message e) w1
               | (None, w1) \<Rightarrow> w1))"

fun process_entries ::
  "'p pillow \<Rightarrow> string \<Rightarrow> int \<Rightarrow> string \<Rightarrow> string list \<Rightarrow> world \<Rightarrow> world" where
  "process_entries lib source_folder_path square_size output_folder_path [] w = w"
| "process_entries lib source_folder_path square_size output_folder_path (filename # rest) w =
     process_entries lib source_folder_path square_size output_folder_path rest
       (process_entry lib source_folder_path square_size output_folder_path filename w)"

definition process_source_images ::
  "'p pillow \<Rightarrow> string \<Rightarrow> int \<Rightarrow> string \<Rightarrow> world \<Rightarrow> error option \<times> world" where
  "process_source_images lib source_folder_path square_size output_folder_path w =
     (if \<not> isdir w source_folder_path
        then (Some (ValueError (''Source folder not found: '' @ source_folder_path)), w)
      else case makedirs w output_folder_path of
             (Some e, w1) \<Rightarrow> (Some e, w1)
           | (None, w1) \<Rightarrow>
               (case listdir w1 source_folder_path of
                  Inl e \<Rightarrow> (Some e, w1)
                | Inr names \<Rightarrow>
                    (None, print_line (''Done. Output in: '' @ output_folder_path)
                             (process_entries lib source_folder_path square_size
                                output_folder_path names w1))))"




section \<open>A small world to run the program in\<close>

text \<open>
  A home directory with a source folder \<^verbatim>\<open>in\<close> (two images with the same stem, a text
  file, a subdirectory holding a further image, and a dangling entry) and a folder
  \<^verbatim>\<open>albums\<close> whose only entry is a subdirectory with an image. The sample library reads
  a two-byte file as the dimensions of an image and encodes an image as its dimensions,
  its pixel datum and the quality.
\<close>

definition sample_world :: world where
  "sample_world =
     \<lparr>cwd = ''/home/u'',
      fs = [[] \<mapsto> Directory [''home''],
            [''home''] \<mapsto> Directory [''u''],
            [''home'', ''u''] \<mapsto> Directory [''in'', ''albums''],
            [''home'', ''u'', ''in''] \<mapsto>
               Directory [''a.png'', ''b.txt'', ''sub'', ''a.jpg'', ''gone''],
            [''home'', ''u'', ''in'', ''a.png''] \<mapsto> Regular [400, 100],
            [''home'', ''u'', ''in'', ''a.jpg''] \<mapsto> Regular [30, 60],
            [''home'', ''u'', ''in'', ''b.txt''] \<mapsto> Regular [7],
            [''home'', ''u'', ''in'', ''sub''] \<mapsto> Directory [''c.png''],
            [''home'', ''u'', ''in'', ''sub'', ''c.png''] \<mapsto> Regular [8, 8],
            [''home'', ''u'', ''albums''] \<mapsto> Directory [''2024''],
            [''home'', ''u'', ''albums'', ''2024''] \<mapsto> Directory [''d.png''],
            [''home'', ''u'', ''albums'', ''2024'', ''d.png''] \<mapsto> Regular [9, 9]],
      stdout = []\<rparr>"

definition sample_lib :: "nat pillow" where
  "sample_lib =
     \<lparr>decode = (\<lambda>b. case b of
                   [w, h] \<Rightarrow> Inr \<lparr>image_size = (w, h), pixels = w + h\<rparr>
                 | _ \<Rightarrow> Inl (OSError ''cannot identify image file'')),
      resample = (\<lambda>img bx sz. pixels img + 1),
      encode = (\<lambda>fmt quality img.
                  if fmt = ''WEBP''
                  then Inr [fst (image_size img), snd (image_size img), pixels img, nat quality]
                  else Inl (OSError ''unknown format''))\<rparr>"

text \<open>The world once the output directory has been made, and the image of \<^verbatim>\<open>a.png\<close>.\<close>

definition sample_ready :: world where
  "sample_ready = snd (makedirs sample_world ''out'')"

definition sample_image :: "nat image" where
  "sample_image = \<lparr>image_size = (400, 100), pixels = 500\<rparr>"

text \<open>The world after one run over \<^verbatim>\<open>in\<close>.\<close>

definition sample_done :: world where
  "sample_done = snd (process_source_images sample_lib ''in'' 50 ''out'' sample_world)"

section \<open>Auxiliary notions for the proofs\<close>

text \<open>Components as \<open>normpath\<close> leaves them: not empty and free of separators.\<close>

definition clean :: "string list \<Rightarrow> bool" where
  "clean comps = (\<forall>x \<in> set comps. x \<noteq> [] \<and> sep \<notin> set x)"

text \<open>The square of side \<open>min w h\<close> in the middle of a \<open>w \<times> h\<close> image, as a box.\<close>

definition centred_square :: "nat \<Rightarrow> nat \<Rightarrow> box" where
  "centred_square w h =
     (let m = of_nat (min w h)
      in ((of_nat w - m) / 2, (of_nat h - m) / 2, (of_nat w + m) / 2, (of_nat h + m) / 2))"

text \<open>
  An entry name as \<^verbatim>\<open>os.listdir\<close> returns it: not empty, not \<^verbatim>\<open>.\<close> or \<^verbatim>\<open>..\<close>, and without
  a separator.
\<close>

definition proper_name :: "string \<Rightarrow> bool" where
  "proper_name f = (f \<noteq> [] \<and> f \<noteq> ''.'' \<and> f \<noteq> ''..'' \<and> sep \<notin> set f)"

text \<open>The bytes the \<^verbatim>\<open>try\<close> body is about to write for an input: open, fit, encode.\<close>

definition prepared :: "'p pillow \<Rightarrow> world \<Rightarrow> string \<Rightarrow> int \<Rightarrow> error + bytes" where
  "prepared lib w ip s =
     (case image_open lib w ip of
        Inl e \<Rightarrow> Inl e
      | Inr img \<Rightarrow>
          (case fit lib img (s, s) of
             Inl e \<Rightarrow> Inl e
           | Inr p \<Rightarrow> encode lib ''WEBP'' 75 p))"

text \<open>
  Two worlds agree outside the directory \<open>d\<close> when they have the same working directory,
  \<open>d\<close> is a directory in both, and every node is the same in both except \<open>d\<close> itself and
  the entries of \<open>d\<close> that are not directories.
\<close>

definition agree_outside :: "location \<Rightarrow> world \<Rightarrow> world \<Rightarrow> bool" where
  "agree_outside d x y =
     (cwd x = cwd y
      \<and> is_directory (fs x d) \<and> is_directory (fs y d)
      \<and> (\<forall>k. k \<noteq> d
             \<longrightarrow> is_directory (fs x k) \<or> is_directory (fs y k) \<or> k = [] \<or> butlast k \<noteq> d
             \<longrightarrow> fs x k = fs y k))"

section \<open>Lemmas on path strings\<close>

lemma split_sep_not_Nil [simp]: "split_sep p \<noteq> []"
  by (induction p) (auto split: list.splits)

lemma split_sep_append: "split_sep (a @ sep # b) = split_sep a @ split_sep b"
  by (induction a) (auto split: list.splits)

lemma split_sep_no_sep: "sep \<notin> set x \<Longrightarrow> split_sep x = [x]"
  by (induction x) auto

lemma walk_append: "walk k (xs @ ys) = walk (walk k xs) ys"
  by (induction xs arbitrary: k) auto

lemma startswith_sep_append: "a \<noteq> [] \<Longrightarrow> startswith_sep (a @ b) = startswith_sep a"
  by (cases a) (auto simp: startswith_sep_def)

lemma split_sep_pieces: "x \<in> set (split_sep p) \<Longrightarrow> sep \<notin> set x"
proof (induction p arbitrary: x)
  case Nil
  then show ?case by simp
next
  case (Cons c cs)
  show ?case
  proof (cases "c = sep")
    case True
    with Cons show ?thesis by auto
  next
    case False
    obtain piece pieces where sp: "split_sep cs = piece # pieces"
      by (cases "split_sep cs") auto
    with Cons.prems False have "x = c # piece \<or> x \<in> set pieces"
      by simp
    then show ?thesis
      using Cons.IH [of piece] Cons.IH [of x] False sp by auto
  qed
qed

lemma norm_comps_clean:
  "clean acc \<Longrightarrow> (\<forall>x \<in> set cs. sep \<notin> set x) \<Longrightarrow> clean (norm_comps i acc cs)"
proof (induction cs arbitrary: acc)
  case Nil then show ?case by simp
next
  case (Cons c cs)
  have 1: "clean (acc @ [c])" if "c \<noteq> []" using Cons.prems that by (auto simp: clean_def)
  have 2: "clean (butlast acc)" using Cons.prems(1) by (auto simp: clean_def dest: in_set_butlastD)
  show ?case using Cons 1 2 by auto
qed

lemma normpath_form:
  "normpath q = ''.'' \<or> (\<exists>i comps. clean comps \<and> (i \<noteq> 0 \<or> comps \<noteq> []) \<and> normpath q = replicate i sep @ sep_join comps)"
proof -
  have "clean (norm_comps (initial_slashes q) [] (split_sep q))"
    by (rule norm_comps_clean) (auto simp: clean_def dest: split_sep_pieces)
  then have "\<exists>i comps. clean comps \<and> (i \<noteq> 0 \<or> comps \<noteq> [])
           \<and> replicate (initial_slashes q) sep @ sep_join (norm_comps (initial_slashes q) [] (split_sep q))
               = replicate i sep @ sep_join comps"
    if "replicate (initial_slashes q) sep @ sep_join (norm_comps (initial_slashes q) [] (split_sep q)) \<noteq> []"
    using that by (intro exI [of _ "initial_slashes q"] exI [of _ "norm_comps (initial_slashes q) [] (split_sep q)"]) auto
  then show ?thesis
    by (auto simp: normpath_def Let_def simp del: replicate_eq_replicate)
qed

lemma sep_join_snoc: "cs \<noteq> [] \<Longrightarrow> sep_join (cs @ [c]) = sep_join cs @ sep # c"
  by (induction cs rule: sep_join.induct) auto

lemma sep_join_last: "clean cs \<Longrightarrow> cs \<noteq> [] \<Longrightarrow> sep_join cs \<noteq> [] \<and> last (sep_join cs) \<noteq> sep"
proof (induction cs rule: rev_induct)
  case Nil then show ?case by simp
next
  case (snoc c cs)
  then have c: "c \<noteq> []" "sep \<notin> set c" by (auto simp: clean_def)
  then have "last c \<noteq> sep" using last_in_set by metis
  then show ?case using c by (cases "cs = []") (auto simp: sep_join_snoc)
qed

lemma upto_last_sep_append:
  assumes "sep \<notin> set c"
  shows "upto_last_sep (pre @ c) = upto_last_sep pre"
proof -
  have "\<forall>x \<in> set (rev c). x \<noteq> sep" using assms by auto
  then show ?thesis unfolding upto_last_sep_def rev_append dropWhile_append by simp
qed

lemma basename_append:
  assumes "sep \<notin> set c"
  shows "basename (pre @ c) = basename pre @ c"
proof -
  have "\<forall>x \<in> set (rev c). x \<noteq> sep" using assms by auto
  then show ?thesis unfolding basename_def rev_append takeWhile_append by simp
qed

lemma upto_last_sep_ends: "pre = [] \<or> last pre = sep \<Longrightarrow> upto_last_sep pre = pre"
  by (cases pre rule: rev_cases) (auto simp: upto_last_sep_def)

lemma basename_ends: "pre = [] \<or> last pre = sep \<Longrightarrow> basename pre = []"
  by (cases pre rule: rev_cases) (auto simp: basename_def)

lemma rstrip_sep_one: "h \<noteq> [] \<Longrightarrow> last h \<noteq> sep \<Longrightarrow> rstrip_sep (h @ [sep]) = h"
  by (cases h rule: rev_cases) (auto simp: rstrip_sep_def)

text \<open>Putting a normal form back together from dirname and basename.\<close>

lemma rejoin_normal:
  assumes nf: "a = ''.'' \<or> (\<exists>i comps. clean comps \<and> (i \<noteq> 0 \<or> comps \<noteq> []) \<and> a = replicate i sep @ sep_join comps)"
    and sfx: "sfx \<noteq> []" "hd sfx \<noteq> sep"
  shows "path_join (dirname a) (basename a @ sfx) = a @ sfx"
proof -
  consider (dot) "a = ''.''"
    | (form) i comps where "clean comps" "i \<noteq> 0 \<or> comps \<noteq> []" "a = replicate i sep @ sep_join comps"
    using nf by blast
  then show ?thesis
  proof cases
  case dot
  then show ?thesis using sfx
    by (simp add: dirname_def upto_last_sep_def basename_def sep_def path_join_def startswith_sep_def)
next
  case form
  note cl = form(1) and ne = form(2) and a = form(3)
  have nsfx: "\<not> startswith_sep sfx" using sfx by (cases sfx) (auto simp: startswith_sep_def)
  show ?thesis
  proof (cases comps rule: rev_cases)
    case Nil
    then have a': "a = replicate i sep" "i \<noteq> 0" using a ne by auto
    then have l: "a \<noteq> []" "last a = sep" by auto
    have "dirname a = a" using l a' by (simp add: dirname_def upto_last_sep_ends)
    moreover have "basename a = []" using l by (simp add: basename_ends)
    ultimately show ?thesis using l nsfx by (simp add: path_join_def endswith_sep_def)
  next
    case (snoc cs c)
    then have c: "c \<noteq> []" "sep \<notin> set c" and cs: "clean cs" using cl by (auto simp: clean_def)
    have nc: "\<not> startswith_sep (c @ sfx)" using c by (cases c) (auto simp: startswith_sep_def)
    define pre where "pre = replicate i sep @ (if cs = [] then [] else sep_join cs @ [sep])"
    have a': "a = pre @ c" using a snoc by (auto simp: pre_def sep_join_snoc)
    have pe: "pre = [] \<or> last pre = sep" by (cases "i = 0") (auto simp: pre_def)
    have up: "upto_last_sep a = pre" and bn: "basename a = c"
      using c pe by (simp_all add: a' upto_last_sep_append upto_last_sep_ends basename_append basename_ends)
    show ?thesis
    proof (cases "cs = []")
      case True
      then have pre: "pre = replicate i sep" by (simp add: pre_def)
      then have "dirname a = pre" by (simp add: dirname_def up)
      then show ?thesis using nc pre bn a' by (auto simp: path_join_def endswith_sep_def)
    next
      case False
      define h where "h = replicate i sep @ sep_join cs"
      have jl: "sep_join cs \<noteq> []" "last (sep_join cs) \<noteq> sep" using sep_join_last [OF cs False] by auto
      have h: "h \<noteq> []" "last h \<noteq> sep" "pre = h @ [sep]" using jl False by (auto simp: h_def pre_def)
      have "pre \<noteq> replicate (length pre) sep"
      proof
        assume "pre = replicate (length pre) sep"
        then have "set pre \<subseteq> {sep}" by (metis set_replicate_conv_if empty_subsetI subset_refl)
        moreover have "last h \<in> set pre" using h by auto
        ultimately show False using h(2) by auto
      qed
      then have "dirname a = h" using h by (simp add: dirname_def up rstrip_sep_one)
      then show ?thesis using nc h bn a' by (auto simp: path_join_def endswith_sep_def)
    qed
  qed
  qed
qed

lemma split_sep_replicate: "split_sep (replicate i sep @ s) = replicate i [] @ split_sep s"
  by (induction i) auto

lemma split_sep_sep_join: "clean comps \<Longrightarrow> comps \<noteq> [] \<Longrightarrow> split_sep (sep_join comps) = comps"
proof (induction comps rule: sep_join.induct)
  case 1
  then show ?case by simp
next
  case (2 x)
  then show ?case by (simp add: clean_def split_sep_no_sep)
next
  case (3 x y ys)
  then have "sep \<notin> set x" "clean (y # ys)" by (auto simp: clean_def)
  then show ?case using 3 by (simp add: split_sep_append split_sep_no_sep)
qed

lemma sep_join_no_leading_sep:
  assumes "clean cs" "\<not> startswith_sep sfx"
  shows "\<not> startswith_sep (sep_join cs @ sfx)"
proof (cases cs)
  case Nil
  then show ?thesis using assms by simp
next
  case (Cons x xs)
  then have "x \<noteq> []" "sep \<notin> set x" using assms by (auto simp: clean_def)
  then obtain c x' where "x = c # x'" "c \<noteq> sep" by (cases x) auto
  then show ?thesis using Cons by (cases xs) (auto simp: startswith_sep_def)
qed

text \<open>The parts of a normalised path after its first sentinel are clean components.\<close>

lemma parts_after_sentinel:
  assumes "sentinel \<in> set (split_sep (normpath q))"
  shows "clean (drop (index_of sentinel (split_sep (normpath q)) + 1) (split_sep (normpath q)))"
proof -
  have s: "sentinel \<noteq> []" "sentinel \<noteq> ''.''" by (simp_all add: sentinel_def)
  from normpath_form [of q] consider (dot) "normpath q = ''.''"
    | (form) i comps where "clean comps" "i \<noteq> 0 \<or> comps \<noteq> []"
        "normpath q = replicate i sep @ sep_join comps"
    by blast
  then show ?thesis
  proof cases
    case dot
    then show ?thesis using assms s by (simp add: sep_def)
  next
    case form
    show ?thesis
    proof (cases "comps = []")
      case True
      then have "split_sep (normpath q) = replicate (Suc i) []"
        using form(3) split_sep_replicate [of i "[]"] by (simp add: replicate_app_Cons_same)
      then show ?thesis using assms s by auto
    next
      case False
      then have parts: "split_sep (normpath q) = replicate i [] @ comps"
        using form by (simp add: split_sep_replicate split_sep_sep_join)
      have "set (drop n (replicate i [] @ comps)) \<subseteq> set comps \<or> n < i" for n
        by (cases "n < i") (auto dest: in_set_dropD)
      moreover have "takeWhile (\<lambda>y. y \<noteq> sentinel) (replicate i [] @ comps)
                       = replicate i [] @ takeWhile (\<lambda>y. y \<noteq> sentinel) comps"
        by (rule takeWhile_append2) (use s in auto)
      then have "index_of sentinel (replicate i [] @ comps) \<ge> i"
        by (simp add: index_of_def)
      ultimately have "set (drop (index_of sentinel (replicate i [] @ comps) + 1) (replicate i [] @ comps))
                         \<subseteq> set comps"
        by (meson not_less trans_le_add1)
      then show ?thesis using form(1) unfolding parts clean_def by blast
    qed
  qed
qed

text \<open>
  The sentinel branch in general: whenever the part before the first sentinel is not
  empty and does not end in a separator, the result is that part, the fixed directory
  name and the remainder with its suffix, joined by single separators.
\<close>

lemma sentinel_path_general:
  assumes sen: "sentinel \<in> set (split_sep (abspath wd source_path))"
    and root: "project_root = sep_join (take (index_of sentinel (split_sep (abspath wd source_path)))
                                         (split_sep (abspath wd source_path)))"
    and rem: "remainder = sep_join (drop (index_of sentinel (split_sep (abspath wd source_path)) + 1)
                                      (split_sep (abspath wd source_path)))"
    and ne: "project_root \<noteq> []" "\<not> endswith_sep project_root"
  shows "build_default_output_path wd source_path
           = project_root @ ''/processed_source_images/'' @ remainder @ ''_processed''"
proof -
  have "clean (drop (index_of sentinel (split_sep (abspath wd source_path)) + 1)
                 (split_sep (abspath wd source_path)))"
    using sen unfolding abspath_def by (rule parts_after_sentinel)
  then have r: "\<not> startswith_sep (remainder @ ''_processed'')"
    unfolding rem by (rule sep_join_no_leading_sep) (simp add: startswith_sep_def sep_def)
  have 1: "path_join project_root ''processed_source_images'' = project_root @ ''/processed_source_images''"
    using ne by (simp add: path_join_def startswith_sep_def sep_def)
  have 2: "path_join (project_root @ ''/processed_source_images'') (remainder @ ''_processed'')
             = project_root @ ''/processed_source_images/'' @ remainder @ ''_processed''"
    using r by (simp add: path_join_def endswith_sep_def sep_def)
  have "build_default_output_path wd source_path
          = path_join3 project_root ''processed_source_images'' (remainder @ ''_processed'')"
    using sen unfolding build_default_output_path_def Let_def root rem by (simp only: if_True)
  then show ?thesis
    by (simp only: path_join3_def 1 2)
qed

section \<open>Lemmas on the file system\<close>

lemma butlast_neq: "k \<noteq> [] \<Longrightarrow> butlast k \<noteq> k"
  by (cases k rule: rev_cases) auto

lemma write_file_fail: "write_file w p content = (Some e, w1) \<Longrightarrow> w1 = w"
  by (auto simp: write_file_def Let_def split: if_splits option.splits node.splits)

lemma write_file_ok:
  assumes "write_file w p content = (None, w1)"
  shows "files w1 = (files w)(resolve w p \<mapsto> content) \<and> stdout w1 = stdout w \<and> cwd w1 = cwd w"
proof (cases "fs w (resolve w p)")
  case None
  with assms obtain names where
    k: "resolve w p \<noteq> []" and par: "fs w (butlast (resolve w p)) = Some (Directory names)"
    and w1: "w1 = w\<lparr>fs := (fs w)(butlast (resolve w p) \<mapsto> Directory (add_name (last (resolve w p)) names),
                                              resolve w p \<mapsto> Regular content)\<rparr>"
    by (auto simp: write_file_def Let_def split: if_splits option.splits node.splits)
  show ?thesis
    using par butlast_neq [OF k] by (auto simp: w1 files_def fun_eq_iff)
next
  case (Some n)
  with assms have w1: "w1 = w\<lparr>fs := (fs w)(resolve w p \<mapsto> Regular content)\<rparr>"
    by (cases n) (auto simp: write_file_def Let_def split: if_splits)
  show ?thesis
    by (auto simp: w1 files_def fun_eq_iff)
qed

lemma write_file_cases:
  obtains (fail) e where "write_file w p content = (Some e, w)"
        | (ok) w1 where "write_file w p content = (None, w1)"
  by (cases "write_file w p content") (metis not_Some_eq write_file_fail)

lemma files_print_line [simp]: "files (print_line l w) = files w"
  by (simp add: files_def print_line_def fun_eq_iff)

lemma stdout_print_line [simp]: "stdout (print_line l w) = stdout w @ [l]"
  by (simp add: print_line_def)

lemma cwd_print_line [simp]: "cwd (print_line l w) = cwd w"
  by (simp add: print_line_def)

text \<open>A name joined to a directory path resolves to a child of that directory.\<close>
lemma walk_split_join:
  assumes x: "sep \<notin> set x" "x \<noteq> []" and d: "d \<noteq> []"
  shows "walk k (split_sep (path_join d x)) = walk (walk k (split_sep d)) [x]"
proof (cases "endswith_sep d")
  case True
  then obtain d' where d': "d = d' @ [sep]"
    by (metis endswith_sep_def append_butlast_last_id)
  have nx: "\<not> startswith_sep x" using x by (cases x) (auto simp: startswith_sep_def)
  have "path_join d x = d' @ sep # x" using True nx d' by (simp add: path_join_def)
  moreover have "split_sep d = split_sep d' @ [[]]"
    using split_sep_append [of d' "[]"] d' by simp
  ultimately show ?thesis
    by (simp add: split_sep_append split_sep_no_sep x walk_append)
next
  case False
  have nx: "\<not> startswith_sep x" using x by (cases x) (auto simp: startswith_sep_def)
  have "path_join d x = d @ sep # x" using False nx d by (simp add: path_join_def)
  then show ?thesis
    by (simp add: split_sep_append split_sep_no_sep x walk_append)
qed

lemma path_join_assoc:
  assumes "d \<noteq> []" "\<not> startswith_sep x"
  shows "path_join c (path_join d x) = path_join (path_join c d) x"
  using assms
  by (cases d) (auto simp: path_join_def startswith_sep_def endswith_sep_def)

lemma path_join_not_Nil: "d \<noteq> [] \<Longrightarrow> path_join c d \<noteq> []"
  by (auto simp: path_join_def)

lemma resolve_child:
  assumes x: "sep \<notin> set x" "x \<noteq> []" and d: "d \<noteq> []"
  shows "resolve w (path_join d x) = walk (resolve w d) [x]"
proof -
  have nx: "\<not> startswith_sep x" using x by (cases x) (auto simp: startswith_sep_def)
  show ?thesis
    unfolding resolve_def path_join_assoc [OF d nx]
    by (rule walk_split_join [OF x path_join_not_Nil [OF d]])
qed

lemma resolve_child_name:
  assumes "sep \<notin> set x" "x \<noteq> []" "x \<noteq> ''.''" "x \<noteq> ''..''" "d \<noteq> []"
  shows "resolve w (path_join d x) = resolve w d @ [x]"
  using resolve_child [of x d w] assms by simp

lemma mkdir_at_keeps:
  assumes "mkdir_at k m = Inr m2"
  shows "(is_directory (m k') \<longrightarrow> is_directory (m2 k')) \<and> (is_regular (m k') \<longrightarrow> m2 k' = m k')"
  using assms
  by (auto simp: mkdir_at_def is_directory_def is_regular_def split: if_splits option.splits node.splits)

lemma makedirs_at_rec:
  assumes "k \<noteq> []" "m (butlast k) = None" "makedirs_at (butlast k) m = (r, m1)"
  shows "makedirs_at k m =
     (case r of Some e \<Rightarrow> (Some e, m1)
      | None \<Rightarrow> (case mkdir_at k m1 of Inr m2 \<Rightarrow> (None, m2)
           | Inl e \<Rightarrow> if is_directory (m1 k) then (None, m1) else (Some e, m1)))"
  using assms by (subst makedirs_at.simps) (simp split: option.splits)

lemma makedirs_at_base:
  assumes "k = [] \<or> m (butlast k) \<noteq> None"
  shows "makedirs_at k m =
     (case mkdir_at k m of Inr m2 \<Rightarrow> (None, m2)
           | Inl e \<Rightarrow> if is_directory (m k) then (None, m) else (Some e, m))"
  using assms by (subst makedirs_at.simps) auto

lemma makedirs_at_keeps:
  "(is_directory (m k') \<longrightarrow> is_directory (snd (makedirs_at k m) k'))
   \<and> (is_regular (m k') \<longrightarrow> snd (makedirs_at k m) k' = m k')"
proof (induction k m rule: makedirs_at.induct)
  case (1 k m)
  show ?case
  proof (cases "k \<noteq> [] \<and> m (butlast k) = None")
    case True
    obtain r m1 where rec: "makedirs_at (butlast k) m = (r, m1)" by (cases "makedirs_at (butlast k) m")
    have ih: "(is_directory (m k') \<longrightarrow> is_directory (m1 k')) \<and> (is_regular (m k') \<longrightarrow> m1 k' = m k')"
      using "1.IH" [OF True] rec by simp
    have eq: "makedirs_at k m =
     (case r of Some e \<Rightarrow> (Some e, m1)
      | None \<Rightarrow> (case mkdir_at k m1 of Inr m2 \<Rightarrow> (None, m2)
           | Inl e \<Rightarrow> if is_directory (m1 k) then (None, m1) else (Some e, m1)))"
      using True rec by (intro makedirs_at_rec) auto
    show ?thesis
    proof (cases "mkdir_at k m1")
      case (Inl e)
      then show ?thesis using ih by (simp add: eq split: option.splits)
    next
      case (Inr m2)
      have reg: "is_regular (m k') \<Longrightarrow> is_regular (m1 k')" using ih by simp
      show ?thesis using ih Inr mkdir_at_keeps [OF Inr, of k'] reg
        by (auto simp add: eq split: option.splits)
    qed
  next
    case False
    then have eq: "makedirs_at k m =
     (case mkdir_at k m of Inr m2 \<Rightarrow> (None, m2)
           | Inl e \<Rightarrow> if is_directory (m k) then (None, m) else (Some e, m))"
      by (intro makedirs_at_base) auto
    show ?thesis
    proof (cases "mkdir_at k m")
      case (Inl e)
      then show ?thesis by (simp add: eq)
    next
      case (Inr m2)
      then show ?thesis using mkdir_at_keeps [OF Inr, of k'] by (simp add: eq)
    qed
  qed
qed

lemma makedirs_keeps_isdir:
  assumes "isdir w p" "makedirs w out = (r, w1)"
  shows "isdir w1 p"
proof -
  from assms(2) have "cwd w1 = cwd w \<and> stdout w1 = stdout w \<and> (w1 = w \<or> fs w1 = snd (makedirs_at (resolve w out) (fs w)))"
    by (auto simp: makedirs_def split: if_splits prod.splits)
  moreover have "is_directory (fs w (resolve w p))" "p \<noteq> []"
    using assms(1) by (auto simp: isdir_def stat_def is_directory_def split: if_splits)
  ultimately show ?thesis
    using makedirs_at_keeps [of "fs w" "resolve w p" "resolve w out"] assms(1)
    by (auto simp: isdir_def stat_def is_directory_def resolve_def)
qed


section \<open>Lemmas on the image library and the loop body\<close>

lemma crop_box_square:
  assumes "0 < h"
  shows "crop_box (w, h) 1 =
          ((of_nat w - of_nat (min w h)) / 2, (of_nat h - of_nat (min w h)) / 2,
           (of_nat w + of_nat (min w h)) / 2, (of_nat h + of_nat (min w h)) / 2)"
proof -
  have h: "(of_nat h :: rat) > 0" using assms by simp
  consider "w = h" | "w > h" | "w < h" by linarith
  then show ?thesis
  proof cases
    case 1 then show ?thesis using h by (simp add: crop_box_def Let_def)
  next
    case 2
    then have "(of_nat w :: rat) / of_nat h > 1" using h by simp
    then show ?thesis using 2 h by (simp add: crop_box_def Let_def min_def field_simps)
  next
    case 3
    then have "(of_nat w :: rat) / of_nat h < 1" using h by simp
    then show ?thesis using 3 h by (simp add: crop_box_def Let_def min_def field_simps)
  qed
qed

lemma fit_square:
  assumes ok: "fit lib img (s, s) = Inr result" and sz: "image_size img = (w, h)"
  shows "0 < s \<and> image_size result = (nat s, nat s)
       \<and> ((result = img \<and> w = h) \<or> pixels result = resample lib img (centred_square w h) (s, s))"
proof -
  from ok sz have h: "0 < h" and s0: "s \<noteq> 0"
    by (auto simp: fit_def split: if_splits)
  have rs: "resize lib img (s, s) (crop_box (w, h) 1) = Inr result"
    using ok sz h s0 by (simp add: fit_def)
  show ?thesis
  proof (cases "(int w, int h) = (s, s) \<and> crop_box (w, h) 1 = (0, 0, of_nat w, of_nat h)")
    case True
    then have "result = img" using rs sz by (simp add: resize_def)
    moreover have "w = h" "0 < s" "nat s = w" using True h by auto
    ultimately show ?thesis using sz by simp
  next
    case False
    then have "0 < s \<and> result = \<lparr>image_size = (nat s, nat s),
                  pixels = resample lib img (crop_box (w, h) 1) (s, s)\<rparr>"
      using rs sz by (auto simp: resize_def split: prod.splits if_splits)
    then show ?thesis by (simp add: centred_square_def Let_def crop_box_square [OF h])
  qed
qed

lemma centred_square_geometry:
  "case centred_square w h of (x0, y0, x1, y1) \<Rightarrow>
     0 \<le> x0 \<and> 0 \<le> y0 \<and> x1 \<le> of_nat w \<and> y1 \<le> of_nat h
     \<and> x1 - x0 = of_nat (min w h) \<and> y1 - y0 = of_nat (min w h)
     \<and> x0 = of_nat w - x1 \<and> y0 = of_nat h - y1"
  by (simp add: centred_square_def Let_def min_def field_simps)

lemma fit_total:
  assumes "image_size img = (w, h)" "0 < h" "0 < s"
  shows "\<exists>out. fit lib img (s, s) = Inr out"
  using assms
  by (auto simp: fit_def resize_def crop_box_square min_def field_simps split: prod.splits)





lemma try_body_success:
  assumes "try_body lib ip s out f w = (None, w1)"
  obtains img p c w' where "image_open lib w ip = Inr img" "fit lib img (s, s) = Inr p"
    "encode lib ''WEBP'' 75 p = Inr c"
    "write_file w (path_join out (fst (splitext f) @ ''.webp'')) c = (None, w')"
    "w1 = print_line (''Processed: '' @ f @ '' -> '' @ path_join out (fst (splitext f) @ ''.webp'')) w'"
  using assms
  by (auto simp: try_body_def save_def Let_def split: sum.splits prod.splits option.splits)

lemma not_regular_skipped:
  "\<not> isfile w (path_join src f) \<Longrightarrow> process_entry lib src s out f w = w"
  by (simp add: process_entry_def)

lemma all_skipped:
  "\<forall>f \<in> set names. \<not> isfile w (path_join src f) \<Longrightarrow> process_entries lib src s out names w = w"
  by (induction names) (simp_all add: not_regular_skipped)

lemma splitext_stem_prefix: "\<exists>n. fst (splitext f) = take n f"
proof (cases "fst (splitext f) = f")
  case True
  then have "fst (splitext f) = take (length f) f" by simp
  then show ?thesis ..
next
  case False
  then show ?thesis by (auto simp: splitext_def Let_def split: if_splits)
qed

lemma stem_no_sep: "sep \<notin> set f \<Longrightarrow> sep \<notin> set (fst (splitext f))"
  using splitext_stem_prefix [of f] by (auto dest: in_set_takeD)

lemma output_location:
  assumes "sep \<notin> set f" "out \<noteq> []"
  shows "resolve w (path_join out (fst (splitext f) @ ''.webp''))
           = resolve w out @ [fst (splitext f) @ ''.webp'']"
proof -
  have "sep \<notin> set (fst (splitext f) @ ''.webp'')"
    using stem_no_sep [OF assms(1)] by (simp add: sep_def)
  moreover have "length (fst (splitext f) @ ''.webp'') \<ge> 5" by simp
  then have "fst (splitext f) @ ''.webp'' \<noteq> []" "fst (splitext f) @ ''.webp'' \<noteq> ''.''"
    "fst (splitext f) @ ''.webp'' \<noteq> ''..''"
    by (auto dest: arg_cong [where f = length])
  ultimately show ?thesis using assms(2) by (intro resolve_child_name)
qed

lemma entry_success:
  assumes reg: "isfile w (path_join src f)"
    and ok: "fst (try_body lib (path_join src f) s out f w) = None"
  shows "\<exists>img p c.
           image_open lib w (path_join src f) = Inr img
         \<and> fit lib img (s, s) = Inr p
         \<and> encode lib ''WEBP'' 75 p = Inr c
         \<and> files (process_entry lib src s out f w)
             = (files w)(resolve w (path_join out (fst (splitext f) @ ''.webp'')) \<mapsto> c)
         \<and> stdout (process_entry lib src s out f w)
             = stdout w @ [''Processed: '' @ f @ '' -> ''
                             @ path_join out (fst (splitext f) @ ''.webp'')]
         \<and> cwd (process_entry lib src s out f w) = cwd w"
proof -
  obtain w1 where tb: "try_body lib (path_join src f) s out f w = (None, w1)"
    using ok by (cases "try_body lib (path_join src f) s out f w") auto
  from tb obtain img p c w' where st: "image_open lib w (path_join src f) = Inr img"
    "fit lib img (s, s) = Inr p" "encode lib ''WEBP'' 75 p = Inr c"
    "write_file w (path_join out (fst (splitext f) @ ''.webp'')) c = (None, w')"
    "w1 = print_line (''Processed: '' @ f @ '' -> '' @ path_join out (fst (splitext f) @ ''.webp'')) w'"
    by (rule try_body_success)
  have pe: "process_entry lib src s out f w = w1"
    using reg tb by (simp add: process_entry_def)
  from write_file_ok [OF st(4)] st(5)
  have "files w1 = (files w)(resolve w (path_join out (fst (splitext f) @ ''.webp'')) \<mapsto> c)"
    and "stdout w1 = stdout w @ [''Processed: '' @ f @ '' -> '' @ path_join out (fst (splitext f) @ ''.webp'')]"
    and "cwd w1 = cwd w"
    by simp_all
  then show ?thesis using st(1-3) pe by blast
qed



section \<open>Lemmas on running the batch twice\<close>

lemma try_body_prepared:
  "try_body lib ip s out f w =
     (case prepared lib w ip s of
        Inl e \<Rightarrow> (Some e, w)
      | Inr c \<Rightarrow>
          (case write_file w (path_join out (fst (splitext f) @ ''.webp'')) c of
             (Some e, w1) \<Rightarrow> (Some e, w1)
           | (None, w1) \<Rightarrow>
               (None, print_line (''Processed: '' @ f @ '' -> ''
                                   @ path_join out (fst (splitext f) @ ''.webp'')) w1)))"
  by (simp add: try_body_def prepared_def save_def Let_def split: sum.splits)

lemma write_file_effect:
  assumes "write_file w p c = (r, w1)"
  shows "cwd w1 = cwd w" "stdout w1 = stdout w"
    "is_directory (fs w1 k) = is_directory (fs w k)"
    "k \<noteq> resolve w p \<Longrightarrow> k \<noteq> butlast (resolve w p) \<Longrightarrow> fs w1 k = fs w k"
  using assms
  by (auto simp: write_file_def Let_def is_directory_def split: if_splits option.splits node.splits)

lemma write_file_outcome:
  assumes "p \<noteq> []" "resolve w p \<noteq> []" "is_directory (fs w (butlast (resolve w p)))"
  shows "fst (write_file w p c)
           = (if is_directory (fs w (resolve w p)) then Some (IsADirectoryError p) else None)"
  using assms
  by (auto simp: write_file_def Let_def is_directory_def split: option.splits node.splits)

lemma agree_print_line [simp]:
  "agree_outside d (print_line l x) (print_line l' y) = agree_outside d x y"
  unfolding agree_outside_def print_line_def by simp

lemma agree_cwd: "agree_outside d x y \<Longrightarrow> cwd x = cwd y"
  unfolding agree_outside_def by blast

lemma agree_dir: "agree_outside d x y \<Longrightarrow> is_directory (fs x d) \<and> is_directory (fs y d)"
  unfolding agree_outside_def by blast

lemma agree_at:
  assumes "agree_outside d x y" "k \<noteq> d"
    "is_directory (fs x k) \<or> is_directory (fs y k) \<or> k = [] \<or> butlast k \<noteq> d"
  shows "fs x k = fs y k"
  using assms unfolding agree_outside_def by blast

lemma agreeI:
  assumes "cwd x = cwd y" "is_directory (fs x d)" "is_directory (fs y d)"
    "\<And>k. k \<noteq> d \<Longrightarrow> is_directory (fs x k) \<or> is_directory (fs y k) \<or> k = [] \<or> butlast k \<noteq> d
          \<Longrightarrow> fs x k = fs y k"
  shows "agree_outside d x y"
  using assms unfolding agree_outside_def by blast

lemma agree_is_directory:
  assumes "agree_outside d x y"
  shows "is_directory (fs x k) = is_directory (fs y k)"
proof (cases "k = d")
  case True
  then show ?thesis using agree_dir [OF assms] by blast
next
  case False
  show ?thesis
  proof (cases "is_directory (fs x k) \<or> is_directory (fs y k)")
    case True
    then have "fs x k = fs y k" using agree_at [OF assms False] by blast
    then show ?thesis by (rule arg_cong)
  next
    case False
    then show ?thesis by blast
  qed
qed

lemma agree_refl: "is_directory (fs x d) \<Longrightarrow> agree_outside d x x"
  by (rule agreeI) auto

lemma agree_trans:
  assumes xy: "agree_outside d x y" and yz: "agree_outside d y z"
  shows "agree_outside d x z"
proof (rule agreeI)
  show "cwd x = cwd z" using agree_cwd [OF xy] agree_cwd [OF yz] by (rule trans)
  show "is_directory (fs x d)" using agree_dir [OF xy] by blast
  show "is_directory (fs z d)" using agree_dir [OF yz] by blast
next
  fix k
  assume k: "k \<noteq> d" and c: "is_directory (fs x k) \<or> is_directory (fs z k) \<or> k = [] \<or> butlast k \<noteq> d"
  have e: "is_directory (fs x k) = is_directory (fs y k)" "is_directory (fs y k) = is_directory (fs z k)"
    by (rule agree_is_directory [OF xy], rule agree_is_directory [OF yz])
  have "fs x k = fs y k" using c e by (intro agree_at [OF xy k]) blast
  moreover have "fs y k = fs z k" using c e by (intro agree_at [OF yz k]) blast
  ultimately show "fs x k = fs z k" by (rule trans)
qed

lemma resolve_cwd: "cwd x = cwd y \<Longrightarrow> resolve x p = resolve y p"
  by (simp add: resolve_def)

lemma stat_agree:
  assumes ag: "agree_outside d x y" and loc: "butlast (resolve x ip) \<noteq> d"
  shows "stat x ip = stat y ip \<or> (is_directory (stat x ip) \<and> is_directory (stat y ip))"
proof -
  have r: "resolve y ip = resolve x ip" using agree_cwd [OF ag] by (simp add: resolve_def)
  show ?thesis
  proof (cases "ip = []")
    case True
    then show ?thesis by (simp add: stat_def)
  next
    case ne: False
    show ?thesis
    proof (cases "resolve x ip = d")
      case True
      then show ?thesis using agree_dir [OF ag] r ne by (simp add: stat_def)
    next
      case False
      then have "fs x (resolve x ip) = fs y (resolve x ip)" using loc by (intro agree_at [OF ag]) blast+
      then show ?thesis using r ne by (simp add: stat_def)
    qed
  qed
qed

lemma write_file_kept:
  "write_file x p c = (r, x1) \<Longrightarrow> is_directory (fs x (resolve x p)) \<Longrightarrow> x1 = x"
  by (auto simp: write_file_def Let_def is_directory_def split: if_splits option.splits node.splits)

lemma write_file_agree:
  assumes w: "write_file x p c = (r, x1)" and d: "butlast (resolve x p) = d" "resolve x p \<noteq> []"
    and dir: "is_directory (fs x d)"
  shows "agree_outside d x x1"
proof (rule agreeI)
  show "cwd x = cwd x1" using write_file_effect(1) [OF w] by simp
  show "is_directory (fs x d)" by (rule dir)
  show "is_directory (fs x1 d)" using write_file_effect(3) [OF w, of d] dir by simp
next
  fix k
  assume k: "k \<noteq> d" and c: "is_directory (fs x k) \<or> is_directory (fs x1 k) \<or> k = [] \<or> butlast k \<noteq> d"
  have dk: "is_directory (fs x1 k) = is_directory (fs x k)" by (rule write_file_effect(3) [OF w])
  show "fs x k = fs x1 k"
  proof (cases "k = resolve x p")
    case True
    with c dk d have "is_directory (fs x (resolve x p))" by auto
    then have "x1 = x" using w by (intro write_file_kept)
    then show ?thesis by simp
  next
    case False
    then show ?thesis using write_file_effect(4) [OF w, of k] k d by simp
  qed
qed

lemma agree_sym:
  assumes "agree_outside d x y"
  shows "agree_outside d y x"
proof (rule agreeI)
  show "cwd y = cwd x" using agree_cwd [OF assms] by simp
  show "is_directory (fs y d)" "is_directory (fs x d)" using agree_dir [OF assms] by blast+
next
  fix k
  assume "k \<noteq> d" "is_directory (fs y k) \<or> is_directory (fs x k) \<or> k = [] \<or> butlast k \<noteq> d"
  then have "fs x k = fs y k" by (intro agree_at [OF assms]) blast+
  then show "fs y k = fs x k" by simp
qed

lemma process_entry_prepared:
  "process_entry lib src s out f w =
     (if \<not> isfile w (path_join src f) then w
      else case prepared lib w (path_join src f) s of
             Inl e \<Rightarrow> print_line (''Skipping '' @ f @ '': '' @ message e) w
           | Inr c \<Rightarrow>
               (case write_file w (path_join out (fst (splitext f) @ ''.webp'')) c of
                  (Some e, w1) \<Rightarrow> print_line (''Skipping '' @ f @ '': '' @ message e) w1
                | (None, w1) \<Rightarrow>
                    print_line (''Processed: '' @ f @ '' -> ''
                                  @ path_join out (fst (splitext f) @ ''.webp'')) w1))"
  by (simp add: process_entry_def try_body_prepared Let_def split: sum.splits prod.splits option.splits)

lemma cwd_write_file: "cwd (snd (write_file w p c)) = cwd w"
  using write_file_effect(1) [of w p c "fst (write_file w p c)" "snd (write_file w p c)"] by simp

lemma cwd_process_entry [simp]: "cwd (process_entry lib src s out f w) = cwd w"
  by (auto simp: process_entry_prepared split: sum.splits prod.splits option.splits
           dest: write_file_effect(1))

lemma cwd_process_entries [simp]: "cwd (process_entries lib src s out names w) = cwd w"
  by (induction names arbitrary: w) simp_all

lemma proper_name_facts:
  assumes "proper_name f"
  shows "sep \<notin> set f" "f \<noteq> []" "f \<noteq> ''.''" "f \<noteq> ''..''"
  using assms by (simp_all add: proper_name_def)

lemma input_location:
  assumes "proper_name f" "src \<noteq> []"
  shows "resolve w (path_join src f) = resolve w src @ [f]"
  using assms by (intro resolve_child_name) (simp_all add: proper_name_def)

lemma path_join_second_not_Nil: "b \<noteq> [] \<Longrightarrow> path_join a b \<noteq> []"
  by (auto simp: path_join_def)

text \<open>One round of the loop on two worlds that agree outside the output directory.\<close>

lemma entry_step:
  assumes ag: "agree_outside d x y"
    and d: "resolve x out = d" and sd: "resolve x src \<noteq> d"
    and f: "proper_name f" and ne: "out \<noteq> []" "src \<noteq> []"
  shows "\<exists>U. files (process_entry lib src s out f x) = files x ++ U
           \<and> files (process_entry lib src s out f y) = files y ++ U
           \<and> agree_outside d (process_entry lib src s out f x) (process_entry lib src s out f y)"
proof -
  let ?ip = "path_join src f" and ?op = "path_join out (fst (splitext f) @ ''.webp'')"
  let ?k = "d @ [fst (splitext f) @ ''.webp'']"
  have cw: "cwd x = cwd y" by (rule agree_cwd [OF ag])
  have lin: "butlast (resolve x ?ip) \<noteq> d" using input_location [OF f ne(2), of x] sd by simp
  from stat_agree [OF ag lin]
  have st: "stat x ?ip = stat y ?ip \<or> (is_directory (stat x ?ip) \<and> is_directory (stat y ?ip))" .
  have isf: "isfile x ?ip = isfile y ?ip"
    using st by (auto simp: isfile_def is_directory_def split: option.splits node.splits)
  have kx: "resolve x ?op = ?k" using output_location [OF proper_name_facts(1) [OF f] ne(1), of x] d by simp
  have ky: "resolve y ?op = ?k" using kx resolve_cwd [OF cw] by simp
  have opne: "?op \<noteq> []" by (rule path_join_second_not_Nil) simp
  have dirx: "is_directory (fs x d)" and diry: "is_directory (fs y d)" using agree_dir [OF ag] by blast+
  have outx: "fst (write_file x ?op c) = (if is_directory (fs x ?k) then Some (IsADirectoryError ?op) else None)" for c
    using write_file_outcome [of ?op x c] opne kx dirx by simp
  have outy: "fst (write_file y ?op c) = (if is_directory (fs y ?k) then Some (IsADirectoryError ?op) else None)" for c
    using write_file_outcome [of ?op y c] opne ky diry by simp
  have same_out: "fst (write_file x ?op c) = fst (write_file y ?op c)" for c
    unfolding outx outy using agree_is_directory [OF ag, of ?k] by simp
  show ?thesis
  proof (cases "isfile x ?ip")
    case False
    then have "process_entry lib src s out f x = x" "process_entry lib src s out f y = y"
      using isf by (simp_all add: process_entry_prepared)
    then show ?thesis using ag by (intro exI [of _ Map.empty]) simp
  next
    case True
    then have "stat x ?ip = stat y ?ip"
      using st by (auto simp: isfile_def is_directory_def split: option.splits node.splits)
    then have prep: "prepared lib x ?ip s = prepared lib y ?ip s"
      by (simp add: prepared_def image_open_def)
    have fy: "isfile y ?ip" using True isf by simp
    show ?thesis
    proof (cases "prepared lib x ?ip s")
      case (Inl e)
      have py: "prepared lib y ?ip s = Inl e" using Inl prep by simp
      have "process_entry lib src s out f x = print_line (''Skipping '' @ f @ '': '' @ message e) x"
        "process_entry lib src s out f y = print_line (''Skipping '' @ f @ '': '' @ message e) y"
        by (simp_all add: process_entry_prepared True fy Inl py)
      then show ?thesis using ag by (intro exI [of _ Map.empty]) simp
    next
      case (Inr c)
      have py: "prepared lib y ?ip s = Inr c" using Inr prep by simp
      obtain rx x1 where wx: "write_file x ?op c = (rx, x1)" by (cases "write_file x ?op c")
      obtain ry y1 where wy: "write_file y ?op c = (ry, y1)" by (cases "write_file y ?op c")
      have r: "rx = ry" using same_out [of c] wx wy by simp
      have ag1: "agree_outside d x1 y1"
      proof -
        have "agree_outside d x x1" using wx kx dirx by (intro write_file_agree) auto
        moreover have "agree_outside d y y1" using wy ky diry by (intro write_file_agree) auto
        ultimately show ?thesis using ag agree_sym agree_trans by blast
      qed
      show ?thesis
      proof (cases rx)
        case (Some e)
        then have "x1 = x" "y1 = y" using wx wy r by (auto dest: write_file_fail)
        then have wx': "write_file x ?op c = (Some e, x)" and wy': "write_file y ?op c = (Some e, y)"
          using wx wy r Some by simp_all
        have "process_entry lib src s out f x = print_line (''Skipping '' @ f @ '': '' @ message e) x"
          "process_entry lib src s out f y = print_line (''Skipping '' @ f @ '': '' @ message e) y"
          by (simp_all add: process_entry_prepared True fy Inr py wx' wy')
        then show ?thesis using ag by (intro exI [of _ Map.empty]) simp
      next
        case None
        then have wx': "write_file x ?op c = (None, x1)" and wy': "write_file y ?op c = (None, y1)"
          using wx wy r by simp_all
        have px: "process_entry lib src s out f x = print_line (''Processed: '' @ f @ '' -> '' @ ?op) x1"
          and pey: "process_entry lib src s out f y = print_line (''Processed: '' @ f @ '' -> '' @ ?op) y1"
          by (simp_all add: process_entry_prepared True fy Inr py wx' wy')
        have "files x1 = (files x)(?k \<mapsto> c)" "files y1 = (files y)(?k \<mapsto> c)"
          using write_file_ok [of x ?op c x1] write_file_ok [of y ?op c y1] wx wy r None kx ky by simp_all
        then have "files x1 = files x ++ [?k \<mapsto> c]" "files y1 = files y ++ [?k \<mapsto> c]"
          by simp_all
        then show ?thesis using ag1 px pey by (intro exI [of _ "[?k \<mapsto> c]"]) simp
      qed
    qed
  qed
qed

lemma entries_steps:
  assumes "agree_outside d x y" "resolve x out = d" "resolve x src \<noteq> d"
    "\<forall>f \<in> set names. proper_name f" "out \<noteq> []" "src \<noteq> []"
  shows "\<exists>U. files (process_entries lib src s out names x) = files x ++ U
           \<and> files (process_entries lib src s out names y) = files y ++ U
           \<and> agree_outside d (process_entries lib src s out names x)
                (process_entries lib src s out names y)"
  using assms
proof (induction names arbitrary: x y)
  case Nil
  then show ?case by (intro exI [of _ Map.empty]) simp
next
  case (Cons f names)
  let ?x = "process_entry lib src s out f x" and ?y = "process_entry lib src s out f y"
  from entry_step [OF Cons.prems(1-3) _ Cons.prems(5,6), of f lib s] Cons.prems(4)
  obtain U where U: "files ?x = files x ++ U" "files ?y = files y ++ U" "agree_outside d ?x ?y"
    by auto
  have r: "resolve ?x out = d" "resolve ?x src \<noteq> d"
    using Cons.prems(2,3) resolve_cwd [of ?x x] by simp_all
  from Cons.IH [OF U(3) r _ Cons.prems(5,6)] Cons.prems(4)
  obtain V where V: "files (process_entries lib src s out names ?x) = files ?x ++ V"
    "files (process_entries lib src s out names ?y) = files ?y ++ V"
    "agree_outside d (process_entries lib src s out names ?x) (process_entries lib src s out names ?y)"
    by auto
  show ?case using U V by (intro exI [of _ "U ++ V"]) simp
qed

lemma agree_print_line_right [simp]:
  "agree_outside d x (print_line l y) = agree_outside d x y"
  unfolding agree_outside_def print_line_def by simp

lemma entry_frame:
  assumes dir: "is_directory (fs x d)" and d: "resolve x out = d"
    and f: "proper_name f" and ne: "out \<noteq> []"
  shows "agree_outside d x (process_entry lib src s out f x)"
proof -
  let ?op = "path_join out (fst (splitext f) @ ''.webp'')"
  have k: "resolve x ?op = d @ [fst (splitext f) @ ''.webp'']"
    using output_location [OF proper_name_facts(1) [OF f] ne, of x] d by simp
  have w: "agree_outside d x (snd (write_file x ?op c))" for c
    using k dir by (intro write_file_agree [of x ?op c "fst (write_file x ?op c)"]) auto
  have refl: "agree_outside d x x" by (rule agree_refl [OF dir])
  show ?thesis
  proof (cases "isfile x (path_join src f)")
    case False
    then show ?thesis using refl by (simp add: process_entry_prepared)
  next
    case True
    show ?thesis
    proof (cases "prepared lib x (path_join src f) s")
      case (Inl e)
      then show ?thesis using True refl by (simp add: process_entry_prepared)
    next
      case (Inr c)
      then show ?thesis using True w [of c]
        by (cases "write_file x ?op c") (auto simp: process_entry_prepared split: option.splits)
    qed
  qed
qed

lemma entries_frame:
  assumes "is_directory (fs x d)" "resolve x out = d" "\<forall>f \<in> set names. proper_name f" "out \<noteq> []"
  shows "agree_outside d x (process_entries lib src s out names x)"
  using assms
proof (induction names arbitrary: x)
  case Nil
  then show ?case by (simp add: agree_refl)
next
  case (Cons f names)
  let ?x = "process_entry lib src s out f x"
  have a: "agree_outside d x ?x" using Cons.prems by (intro entry_frame) auto
  have "is_directory (fs ?x d)" using agree_dir [OF a] by blast
  moreover have "resolve ?x out = d" using Cons.prems(2) resolve_cwd [of ?x x] by simp
  ultimately have "agree_outside d ?x (process_entries lib src s out names ?x)"
    using Cons.prems by (intro Cons.IH) auto
  with a show ?case by (simp add: agree_trans)
qed

text \<open>What a successful makedirs leaves behind, and makedirs on what is there already.\<close>

lemma mkdir_at_made:
  assumes "mkdir_at k m = Inr m2"
  shows "is_directory (m2 k) \<and> (k = [] \<or> m2 (butlast k) \<noteq> None)"
  using assms butlast_neq [of k]
  by (auto simp: mkdir_at_def is_directory_def split: if_splits option.splits node.splits)

lemma makedirs_at_made:
  "makedirs_at k m = (None, m') \<Longrightarrow> is_directory (m' k) \<and> (k = [] \<or> m' (butlast k) \<noteq> None)"
proof (induction k m arbitrary: m' rule: makedirs_at.induct)
  case (1 k m)
  show ?case
  proof (cases "k \<noteq> [] \<and> m (butlast k) = None")
    case True
    obtain r m1 where rec: "makedirs_at (butlast k) m = (r, m1)" by (cases "makedirs_at (butlast k) m")
    have eq: "makedirs_at k m =
     (case r of Some e \<Rightarrow> (Some e, m1)
      | None \<Rightarrow> (case mkdir_at k m1 of Inr m2 \<Rightarrow> (None, m2)
           | Inl e \<Rightarrow> if is_directory (m1 k) then (None, m1) else (Some e, m1)))"
      using True rec by (intro makedirs_at_rec) auto
    from eq "1.prems" have r: "r = None" by (cases r) auto
    have par: "is_directory (m1 (butlast k))" using "1.IH" [OF True, of m1] rec r by simp
    show ?thesis
    proof (cases "mkdir_at k m1")
      case (Inl e)
      then have "m' = m1" "is_directory (m1 k)" using eq r "1.prems" by (auto split: if_splits)
      then show ?thesis using par by (auto simp: is_directory_def)
    next
      case (Inr m2)
      then have "m' = m2" using eq r "1.prems" by simp
      then show ?thesis using mkdir_at_made [OF Inr] by simp
    qed
  next
    case False
    then have eq: "makedirs_at k m =
     (case mkdir_at k m of Inr m2 \<Rightarrow> (None, m2)
           | Inl e \<Rightarrow> if is_directory (m k) then (None, m) else (Some e, m))"
      by (intro makedirs_at_base) auto
    show ?thesis
    proof (cases "mkdir_at k m")
      case (Inl e)
      then have "m' = m" "is_directory (m k)" using eq "1.prems" by (auto split: if_splits)
      then show ?thesis using False by auto
    next
      case (Inr m2)
      then have "m' = m2" using eq "1.prems" by simp
      then show ?thesis using mkdir_at_made [OF Inr] by simp
    qed
  qed
qed

lemma makedirs_at_existing:
  assumes "is_directory (m k)" "k = [] \<or> m (butlast k) \<noteq> None"
  shows "makedirs_at k m = (None, m)"
proof -
  have "m k \<noteq> None" using assms(1) by (auto simp: is_directory_def split: option.splits)
  then obtain e where "mkdir_at k m = Inl e" by (simp add: mkdir_at_def)
  then show ?thesis using assms by (simp add: makedirs_at_base)
qed

lemma map_add_twice: "(m ++ u) ++ u = m ++ (u :: 'a \<rightharpoonup> 'b)"
  by (rule ext) (simp add: map_add_def split: option.splits)

lemma butlast_butlast_neq: "d \<noteq> [] \<Longrightarrow> butlast (butlast d) \<noteq> d"
proof
  assume ne: "d \<noteq> []" and eq: "butlast (butlast d) = d"
  have "length (butlast (butlast d)) = length d - 2" by simp
  with eq have "length d - 2 = length d" by simp
  moreover have "0 < length d" using ne by simp
  ultimately show False by arith
qed

section \<open>Properties\<close>

subsection \<open>Default output path\<close>

text \<open>The example of section 8 of the spec.\<close>

lemma sentinel_example:
  "build_default_output_path wd ''/a/b/source_images/c/d''
     = ''/a/b/processed_source_images/c/d_processed''"
proof -
  have "abspath wd ''/a/b/source_images/c/d'' = normpath ''/a/b/source_images/c/d''"
    by (simp add: abspath_def startswith_sep_def sep_def)
  moreover have "normpath ''/a/b/source_images/c/d'' = ''/a/b/source_images/c/d''"
    by code_simp
  moreover have "split_sep ''/a/b/source_images/c/d'' = [[], ''a'', ''b'', ''source_images'', ''c'', ''d'']"
    by code_simp
  moreover have "sentinel \<in> set [[], ''a'', ''b'', ''source_images'', ''c'', ''d'']"
    by code_simp
  moreover have
    "path_join3
       (sep_join (take (index_of sentinel [[], ''a'', ''b'', ''source_images'', ''c'', ''d''])
                    [[], ''a'', ''b'', ''source_images'', ''c'', ''d'']))
       ''processed_source_images''
       (sep_join (drop (index_of sentinel [[], ''a'', ''b'', ''source_images'', ''c'', ''d''] + 1)
                    [[], ''a'', ''b'', ''source_images'', ''c'', ''d'']) @ ''_processed'')
     = ''/a/b/processed_source_images/c/d_processed''"
    by code_simp
  ultimately show ?thesis
    by (simp only: build_default_output_path_def Let_def if_True)
qed

text \<open>
  C1. For an absolute source path with the segment \<^verbatim>\<open>source_images\<close>, the result should be
  \<^verbatim>\<open><project_root>/processed_source_images/<remainder>_processed\<close>, as it is for
  \<^verbatim>\<open>/a/b/source_images/c/d\<close> (lemma \<open>sentinel_example\<close>) and whenever the project root
  is not empty (lemma \<open>sentinel_path_general\<close>). When the segment lies directly
  under the root, \<^verbatim>\<open>os.sep.join\<close> of the single empty part before it is the empty string,
  and \<^verbatim>\<open>os.path.join\<close> then drops the root: for \<^verbatim>\<open>/source_images/c/d\<close> the function
  returns the relative path \<^verbatim>\<open>processed_source_images/c/d_processed\<close>, whatever the
  working directory.
\<close>

theorem root_level_sentinel_yields_relative_path:
  "build_default_output_path wd ''/source_images/c/d'' = ''processed_source_images/c/d_processed''"
proof -
  have "abspath wd ''/source_images/c/d'' = normpath ''/source_images/c/d''"
    by (simp add: abspath_def startswith_sep_def sep_def)
  moreover have "normpath ''/source_images/c/d'' = ''/source_images/c/d''"
    by code_simp
  moreover have "split_sep ''/source_images/c/d'' = [[], ''source_images'', ''c'', ''d'']"
    by code_simp
  moreover have "sentinel \<in> set [[], ''source_images'', ''c'', ''d'']"
    by code_simp
  moreover have
    "path_join3
       (sep_join (take (index_of sentinel [[], ''source_images'', ''c'', ''d''])
                    [[], ''source_images'', ''c'', ''d'']))
       ''processed_source_images''
       (sep_join (drop (index_of sentinel [[], ''source_images'', ''c'', ''d''] + 1)
                    [[], ''source_images'', ''c'', ''d'']) @ ''_processed'')
     = ''processed_source_images/c/d_processed''"
    by code_simp
  ultimately show ?thesis
    by (simp only: build_default_output_path_def Let_def if_True)
qed

text \<open>
  C2. When no segment of the absolute source path is \<^verbatim>\<open>source_images\<close>, the default output
  path is the absolute source path with \<^verbatim>\<open>_processed\<close> appended: it has the same parent
  directory as the source, and its name is the source's base name followed by
  \<^verbatim>\<open>_processed\<close>. This holds for every source path and working directory.
\<close>

theorem default_output_path_without_sentinel:
  assumes "sentinel \<notin> set (split_sep (abspath wd source_path))"
  shows "build_default_output_path wd source_path = abspath wd source_path @ ''_processed''
       \<and> dirname (build_default_output_path wd source_path) = dirname (abspath wd source_path)
       \<and> basename (build_default_output_path wd source_path)
           = basename (abspath wd source_path) @ ''_processed''"
proof -
  have nf: "abspath wd source_path = ''.'' \<or> (\<exists>i comps. clean comps \<and> (i \<noteq> 0 \<or> comps \<noteq> [])
            \<and> abspath wd source_path = replicate i sep @ sep_join comps)"
    unfolding abspath_def by (rule normpath_form)
  have eq: "build_default_output_path wd source_path = abspath wd source_path @ ''_processed''"
    using assms rejoin_normal [OF nf, of "''_processed''"]
    by (simp add: build_default_output_path_def Let_def sep_def)
  have ns: "sep \<notin> set ''_processed''" by (simp add: sep_def)
  show ?thesis
    unfolding eq using ns
    by (simp add: dirname_def upto_last_sep_append [OF ns] basename_append [OF ns] del: set_simps)
qed

theorem default_output_path_without_sentinel_witness:
  "sentinel \<notin> set (split_sep (abspath ''/home/u'' ''/x/y/myfolder''))
   \<and> build_default_output_path ''/home/u'' ''/x/y/myfolder'' = ''/x/y/myfolder_processed''
   \<and> dirname (build_default_output_path ''/home/u'' ''/x/y/myfolder'') = ''/x/y''
   \<and> basename (build_default_output_path ''/home/u'' ''/x/y/myfolder'') = ''myfolder_processed''"
proof -
  have a: "abspath ''/home/u'' ''/x/y/myfolder'' = ''/x/y/myfolder''"
    by code_simp
  have h: "sentinel \<notin> set (split_sep (abspath ''/home/u'' ''/x/y/myfolder''))"
    by code_simp
  have d: "dirname ''/x/y/myfolder'' = ''/x/y''" and b: "basename ''/x/y/myfolder'' = ''myfolder''"
    by code_simp+
  have app: "''/x/y/myfolder'' @ ''_processed'' = ''/x/y/myfolder_processed''"
    "''myfolder'' @ ''_processed'' = ''myfolder_processed''"
    by simp_all
  have "build_default_output_path ''/home/u'' ''/x/y/myfolder'' = ''/x/y/myfolder_processed''
   \<and> dirname (build_default_output_path ''/home/u'' ''/x/y/myfolder'') = ''/x/y''
   \<and> basename (build_default_output_path ''/home/u'' ''/x/y/myfolder'') = ''myfolder_processed''"
    using default_output_path_without_sentinel [OF h, unfolded a d b app] .
  with h show ?thesis by (rule conjI)
qed


subsection \<open>The batch processor\<close>





text \<open>
  C5. When a regular file is processed without error, the image that is encoded and
  written has exactly \<open>s \<times> s\<close> pixels, and \<open>s\<close> is positive. Its pixels are resampled
  from the square of side \<open>min w h\<close> in the middle of the \<open>w \<times> h\<close> source (a source that
  already is \<open>s \<times> s\<close> is written as it is). That box is square, so both axes are scaled
  by the same factor; it spans the whole shorter dimension and lies inside the image,
  so nothing is padded; and it leaves equal margins on the longer dimension. For a
  \<open>400 \<times> 100\<close> source and \<open>s = 50\<close> the box is \<open>(150, 0, 250, 100)\<close>. The crop-resize
  itself succeeds for every source of positive height and every positive \<open>s\<close> (lemma
  \<open>fit_total\<close>).
\<close>

theorem written_image_is_center_crop_to_fill:
  assumes reg: "isfile w (path_join src f)"
    and ok: "fst (try_body lib (path_join src f) s out f w) = None"
  shows "\<exists>img wd ht processed content.
           image_open lib w (path_join src f) = Inr img
         \<and> image_size img = (wd, ht)
         \<and> fit lib img (s, s) = Inr processed
         \<and> 0 < s
         \<and> image_size processed = (nat s, nat s)
         \<and> ((processed = img \<and> wd = ht)
              \<or> pixels processed = resample lib img (centred_square wd ht) (s, s))
         \<and> (case centred_square wd ht of (x0, y0, x1, y1) \<Rightarrow>
               0 \<le> x0 \<and> 0 \<le> y0 \<and> x1 \<le> of_nat wd \<and> y1 \<le> of_nat ht
               \<and> x1 - x0 = of_nat (min wd ht) \<and> y1 - y0 = of_nat (min wd ht)
               \<and> x0 = of_nat wd - x1 \<and> y0 = of_nat ht - y1)
         \<and> encode lib ''WEBP'' 75 processed = Inr content
         \<and> files (process_entry lib src s out f w)
              (resolve w (path_join out (fst (splitext f) @ ''.webp''))) = Some content"
proof -
  from entry_success [OF reg ok] obtain img processed content where
    st: "image_open lib w (path_join src f) = Inr img" "fit lib img (s, s) = Inr processed"
      "encode lib ''WEBP'' 75 processed = Inr content"
      "files (process_entry lib src s out f w)
         = (files w)(resolve w (path_join out (fst (splitext f) @ ''.webp'')) \<mapsto> content)"
    by blast
  obtain wd ht where sz: "image_size img = (wd, ht)"
    by (cases "image_size img")
  from fit_square [OF st(2) sz]
  have "0 < s" "image_size processed = (nat s, nat s)"
    "(processed = img \<and> wd = ht)
       \<or> pixels processed = resample lib img (centred_square wd ht) (s, s)"
    by blast+
  moreover have "files (process_entry lib src s out f w)
                   (resolve w (path_join out (fst (splitext f) @ ''.webp''))) = Some content"
    by (simp add: st(4))
  ultimately show ?thesis
    using st(1-3) sz centred_square_geometry [of wd ht]
    by (intro exI [of _ img] exI [of _ wd] exI [of _ ht] exI [of _ processed]
          exI [of _ content]) (intro conjI; assumption)
qed

theorem written_image_is_center_crop_to_fill_witness:
  "isfile sample_ready (path_join ''in'' ''a.png'')
   \<and> fst (try_body sample_lib (path_join ''in'' ''a.png'') 50 ''out'' ''a.png'' sample_ready) = None
   \<and> image_open sample_lib sample_ready (path_join ''in'' ''a.png'') = Inr sample_image
   \<and> centred_square 400 100 = (150, 0, 250, 100)
   \<and> fit sample_lib sample_image (50, 50) = Inr \<lparr>image_size = (50, 50), pixels = 501\<rparr>
   \<and> (\<exists>processed content.
         fit sample_lib sample_image (50, 50) = Inr processed
       \<and> image_size processed = (50, 50)
       \<and> encode sample_lib ''WEBP'' 75 processed = Inr content
       \<and> files (process_entry sample_lib ''in'' 50 ''out'' ''a.png'' sample_ready)
            (resolve sample_ready (path_join ''out'' (fst (splitext ''a.png'') @ ''.webp'')))
           = Some content)"
proof -
  have ev:
    "isfile sample_ready (path_join ''in'' ''a.png'')
     \<and> fst (try_body sample_lib (path_join ''in'' ''a.png'') 50 ''out'' ''a.png'' sample_ready) = None
     \<and> image_open sample_lib sample_ready (path_join ''in'' ''a.png'') = Inr sample_image
     \<and> centred_square 400 100 = (150, 0, 250, 100)
     \<and> fit sample_lib sample_image (50, 50) = Inr \<lparr>image_size = (50, 50), pixels = 501\<rparr>"
    by code_simp
  then have reg: "isfile sample_ready (path_join ''in'' ''a.png'')"
    and ok: "fst (try_body sample_lib (path_join ''in'' ''a.png'') 50 ''out'' ''a.png'' sample_ready) = None"
    and op: "image_open sample_lib sample_ready (path_join ''in'' ''a.png'') = Inr sample_image"
    by simp_all
  from written_image_is_center_crop_to_fill [OF reg ok]
  have "\<exists>processed content.
         fit sample_lib sample_image (50, 50) = Inr processed
       \<and> image_size processed = (nat 50, nat 50)
       \<and> encode sample_lib ''WEBP'' 75 processed = Inr content
       \<and> files (process_entry sample_lib ''in'' 50 ''out'' ''a.png'' sample_ready)
            (resolve sample_ready (path_join ''out'' (fst (splitext ''a.png'') @ ''.webp'')))
           = Some content"
    unfolding op by blast
  then have "\<exists>processed content.
         fit sample_lib sample_image (50, 50) = Inr processed
       \<and> image_size processed = (50, 50)
       \<and> encode sample_lib ''WEBP'' 75 processed = Inr content
       \<and> files (process_entry sample_lib ''in'' 50 ''out'' ''a.png'' sample_ready)
            (resolve sample_ready (path_join ''out'' (fst (splitext ''a.png'') @ ''.webp'')))
           = Some content"
    by simp
  with ev show ?thesis by blast
qed

text \<open>
  C6. A regular file that is processed without error yields exactly one written file:
  the files of the world afterwards are those before, with the file at
  \<^verbatim>\<open>os.path.join(output_folder_path, base_name + ".webp")\<close> set to the bytes the encoder
  gives for format \<^verbatim>\<open>WEBP\<close> at quality 75 on the fitted image, where \<open>base_name\<close> is the
  input's name without its extension. Whatever that file held before is replaced, and the
  only line printed is the \<^verbatim>\<open>Processed\<close> line. For a file name as \<^verbatim>\<open>os.listdir\<close> gives it,
  the written file lies directly in the output directory.
\<close>

theorem processed_file_writes_one_webp:
  assumes reg: "isfile w (path_join src f)"
    and ok: "fst (try_body lib (path_join src f) s out f w) = None"
  shows "\<exists>img processed content.
           image_open lib w (path_join src f) = Inr img
         \<and> fit lib img (s, s) = Inr processed
         \<and> encode lib ''WEBP'' 75 processed = Inr content
         \<and> files (process_entry lib src s out f w)
             = (files w)(resolve w (path_join out (fst (splitext f) @ ''.webp'')) \<mapsto> content)
         \<and> stdout (process_entry lib src s out f w)
             = stdout w @ [''Processed: '' @ f @ '' -> ''
                             @ path_join out (fst (splitext f) @ ''.webp'')]
         \<and> (sep \<notin> set f \<and> out \<noteq> [] \<longrightarrow>
              resolve w (path_join out (fst (splitext f) @ ''.webp''))
                = resolve w out @ [fst (splitext f) @ ''.webp''])"
proof -
  obtain w1 where tb: "try_body lib (path_join src f) s out f w = (None, w1)"
    using ok by (cases "try_body lib (path_join src f) s out f w") auto
  from tb obtain img p c w' where st: "image_open lib w (path_join src f) = Inr img"
    "fit lib img (s, s) = Inr p" "encode lib ''WEBP'' 75 p = Inr c"
    "write_file w (path_join out (fst (splitext f) @ ''.webp'')) c = (None, w')"
    "w1 = print_line (''Processed: '' @ f @ '' -> '' @ path_join out (fst (splitext f) @ ''.webp'')) w'"
    by (rule try_body_success)
  have pe: "process_entry lib src s out f w = w1"
    using reg tb by (simp add: process_entry_def)
  from write_file_ok [OF st(4)] st(5)
  have "files w1 = (files w)(resolve w (path_join out (fst (splitext f) @ ''.webp'')) \<mapsto> c)"
    and "stdout w1 = stdout w @ [''Processed: '' @ f @ '' -> '' @ path_join out (fst (splitext f) @ ''.webp'')]"
    by simp_all
  moreover have "resolve w (path_join out (fst (splitext f) @ ''.webp''))
                = resolve w out @ [fst (splitext f) @ ''.webp'']" if "sep \<notin> set f" "out \<noteq> []"
    using that by (rule output_location)
  ultimately show ?thesis using st(1-3) pe by blast
qed

theorem processed_file_writes_one_webp_witness:
  "isfile sample_ready (path_join ''in'' ''a.png'')
   \<and> fst (try_body sample_lib (path_join ''in'' ''a.png'') 50 ''out'' ''a.png'' sample_ready) = None
   \<and> (\<exists>content.
         files (process_entry sample_lib ''in'' 50 ''out'' ''a.png'' sample_ready)
           = (files sample_ready)
               (resolve sample_ready (path_join ''out'' (fst (splitext ''a.png'') @ ''.webp''))
                  \<mapsto> content))
   \<and> resolve sample_ready (path_join ''out'' (fst (splitext ''a.png'') @ ''.webp''))
       = [''home'', ''u'', ''out'', ''a.webp'']
   \<and> files (process_entry sample_lib ''in'' 50 ''out'' ''a.png'' sample_ready)
        [''home'', ''u'', ''out'', ''a.webp''] = Some [50, 50, 501, 75]
   \<and> stdout (process_entry sample_lib ''in'' 50 ''out'' ''a.png'' sample_ready)
       = [''Processed: a.png -> out/a.webp'']"
proof -
  have ev:
    "isfile sample_ready (path_join ''in'' ''a.png'')
     \<and> fst (try_body sample_lib (path_join ''in'' ''a.png'') 50 ''out'' ''a.png'' sample_ready) = None
     \<and> resolve sample_ready (path_join ''out'' (fst (splitext ''a.png'') @ ''.webp''))
         = [''home'', ''u'', ''out'', ''a.webp'']
     \<and> files (process_entry sample_lib ''in'' 50 ''out'' ''a.png'' sample_ready)
          [''home'', ''u'', ''out'', ''a.webp''] = Some [50, 50, 501, 75]
     \<and> stdout (process_entry sample_lib ''in'' 50 ''out'' ''a.png'' sample_ready)
         = [''Processed: a.png -> out/a.webp'']"
    by code_simp
  then have reg: "isfile sample_ready (path_join ''in'' ''a.png'')"
    and ok: "fst (try_body sample_lib (path_join ''in'' ''a.png'') 50 ''out'' ''a.png'' sample_ready) = None"
    by simp_all
  from processed_file_writes_one_webp [OF reg ok]
  have "\<exists>content.
         files (process_entry sample_lib ''in'' 50 ''out'' ''a.png'' sample_ready)
           = (files sample_ready)
               (resolve sample_ready (path_join ''out'' (fst (splitext ''a.png'') @ ''.webp''))
                  \<mapsto> content)"
    by blast
  with ev show ?thesis by blast
qed

text \<open>
  C7. The loop runs over the names \<^verbatim>\<open>os.listdir\<close> returns for the source directory and
  over nothing else. An entry that is not a regular file when its turn comes (a
  subdirectory, a link to a directory, a dangling entry) leaves the world untouched: no
  file is written and no line is printed for it. So a source directory without regular
  files, whatever its subdirectories hold, yields only the closing line.
\<close>

theorem non_regular_entries_are_passed_over:
  assumes "isdir w src" and "makedirs w out = (None, w1)" and "listdir w1 src = Inr names"
  shows "(\<forall>f w'. \<not> isfile w' (path_join src f) \<longrightarrow> process_entry lib src s out f w' = w')
       \<and> process_source_images lib src s out w
           = (None, print_line (''Done. Output in: '' @ out)
                      (process_entries lib src s out names w1))
       \<and> ((\<forall>f \<in> set names. \<not> isfile w1 (path_join src f)) \<longrightarrow>
            process_source_images lib src s out w
              = (None, print_line (''Done. Output in: '' @ out) w1))"
  using assms by (simp add: process_source_images_def all_skipped not_regular_skipped)

theorem non_regular_entries_are_passed_over_witness:
  "isdir sample_world ''albums''
   \<and> makedirs sample_world ''out'' = (None, sample_ready)
   \<and> listdir sample_ready ''albums'' = Inr [''2024'']
   \<and> \<not> isfile sample_ready (path_join ''albums'' ''2024'')
   \<and> process_entry sample_lib ''albums'' 35 ''out'' ''2024'' sample_ready = sample_ready
   \<and> process_source_images sample_lib ''albums'' 35 ''out'' sample_world
       = (None, print_line ''Done. Output in: out'' sample_ready)"
proof -
  have ev:
    "isdir sample_world ''albums''
     \<and> fst (makedirs sample_world ''out'') = None
     \<and> listdir sample_ready ''albums'' = Inr [''2024'']
     \<and> \<not> isfile sample_ready (path_join ''albums'' ''2024'')"
    by code_simp
  then have dir: "isdir sample_world ''albums''"
    and ls: "listdir sample_ready ''albums'' = Inr [''2024'']"
    and sub: "\<not> isfile sample_ready (path_join ''albums'' ''2024'')"
    by simp_all
  have mk: "makedirs sample_world ''out'' = (None, sample_ready)"
    using ev by (simp add: sample_ready_def prod_eq_iff)
  note t = non_regular_entries_are_passed_over [OF dir mk ls, of sample_lib 35]
  from t sub have "process_entry sample_lib ''albums'' 35 ''out'' ''2024'' sample_ready = sample_ready"
    by blast
  moreover from t sub
  have "process_source_images sample_lib ''albums'' 35 ''out'' sample_world
       = (None, print_line ''Done. Output in: out'' sample_ready)"
    by simp
  ultimately show ?thesis using dir mk ls sub by blast
qed

text \<open>
  C9. Two file names with the same stem have the same output path. When both are
  processed without error (the second in any later world with the same working
  directory), both write the same location, and after the second write the file holds
  the bytes encoded from the second input: the earlier output is gone, and nothing is
  printed about it. In the sample world \<^verbatim>\<open>a.png\<close> and \<^verbatim>\<open>a.jpg\<close> are both reported as
  processed, and the output directory ends up with the single file \<^verbatim>\<open>a.webp\<close>, made from
  \<^verbatim>\<open>a.jpg\<close>.
\<close>

theorem same_stem_later_file_overwrites:
  assumes stem: "fst (splitext f1) = fst (splitext f2)"
    and reg1: "isfile w (path_join src f1)"
    and ok1: "fst (try_body lib (path_join src f1) s out f1 w) = None"
    and reg2: "isfile w' (path_join src f2)"
    and ok2: "fst (try_body lib (path_join src f2) s out f2 w') = None"
    and wd: "cwd w' = cwd w"
  shows "\<exists>c1 img2 p2 c2.
           files (process_entry lib src s out f1 w)
             = (files w)(resolve w (path_join out (fst (splitext f1) @ ''.webp'')) \<mapsto> c1)
         \<and> image_open lib w' (path_join src f2) = Inr img2
         \<and> fit lib img2 (s, s) = Inr p2
         \<and> encode lib ''WEBP'' 75 p2 = Inr c2
         \<and> files (process_entry lib src s out f2 w')
             = (files w')(resolve w (path_join out (fst (splitext f1) @ ''.webp'')) \<mapsto> c2)"
proof -
  have same: "resolve w' (path_join out (fst (splitext f2) @ ''.webp''))
                = resolve w (path_join out (fst (splitext f1) @ ''.webp''))"
    by (simp add: resolve_def wd stem)
  from entry_success [OF reg1 ok1] obtain c1 where
    "files (process_entry lib src s out f1 w)
       = (files w)(resolve w (path_join out (fst (splitext f1) @ ''.webp'')) \<mapsto> c1)"
    by blast
  moreover from entry_success [OF reg2 ok2] obtain img2 p2 c2 where
    "image_open lib w' (path_join src f2) = Inr img2" "fit lib img2 (s, s) = Inr p2"
    "encode lib ''WEBP'' 75 p2 = Inr c2"
    "files (process_entry lib src s out f2 w')
       = (files w')(resolve w' (path_join out (fst (splitext f2) @ ''.webp'')) \<mapsto> c2)"
    by blast
  ultimately show ?thesis unfolding same by blast
qed

theorem same_stem_later_file_overwrites_witness:
  "fst (splitext ''a.png'') = fst (splitext ''a.jpg'')
   \<and> (\<exists>c1 c2.
         files (process_entry sample_lib ''in'' 50 ''out'' ''a.png'' sample_ready)
           = (files sample_ready)
               (resolve sample_ready (path_join ''out'' (fst (splitext ''a.png'') @ ''.webp'')) \<mapsto> c1)
       \<and> files (process_entry sample_lib ''in'' 50 ''out'' ''a.jpg''
                  (process_entries sample_lib ''in'' 50 ''out'' [''a.png'', ''b.txt'', ''sub''] sample_ready))
           = (files (process_entries sample_lib ''in'' 50 ''out'' [''a.png'', ''b.txt'', ''sub''] sample_ready))
               (resolve sample_ready (path_join ''out'' (fst (splitext ''a.png'') @ ''.webp'')) \<mapsto> c2))
   \<and> stdout (snd (process_source_images sample_lib ''in'' 50 ''out'' sample_world))
       = [''Processed: a.png -> out/a.webp'',
          ''Skipping b.txt: cannot identify image file'',
          ''Processed: a.jpg -> out/a.webp'',
          ''Done. Output in: out'']
   \<and> listdir (snd (process_source_images sample_lib ''in'' 50 ''out'' sample_world)) ''out''
       = Inr [''a.webp'']
   \<and> files (snd (process_source_images sample_lib ''in'' 50 ''out'' sample_world))
        [''home'', ''u'', ''out'', ''a.webp''] = Some [50, 50, 91, 75]"
proof -
  let ?later = "process_entries sample_lib ''in'' 50 ''out'' [''a.png'', ''b.txt'', ''sub''] sample_ready"
  have ev:
    "fst (splitext ''a.png'') = fst (splitext ''a.jpg'')
     \<and> isfile sample_ready (path_join ''in'' ''a.png'')
     \<and> fst (try_body sample_lib (path_join ''in'' ''a.png'') 50 ''out'' ''a.png'' sample_ready) = None
     \<and> isfile ?later (path_join ''in'' ''a.jpg'')
     \<and> fst (try_body sample_lib (path_join ''in'' ''a.jpg'') 50 ''out'' ''a.jpg'' ?later) = None
     \<and> cwd ?later = cwd sample_ready
     \<and> stdout (snd (process_source_images sample_lib ''in'' 50 ''out'' sample_world))
         = [''Processed: a.png -> out/a.webp'',
            ''Skipping b.txt: cannot identify image file'',
            ''Processed: a.jpg -> out/a.webp'',
            ''Done. Output in: out'']
     \<and> listdir (snd (process_source_images sample_lib ''in'' 50 ''out'' sample_world)) ''out''
         = Inr [''a.webp'']
     \<and> files (snd (process_source_images sample_lib ''in'' 50 ''out'' sample_world))
          [''home'', ''u'', ''out'', ''a.webp''] = Some [50, 50, 91, 75]"
    by code_simp
  then have h: "fst (splitext ''a.png'') = fst (splitext ''a.jpg'')"
    "isfile sample_ready (path_join ''in'' ''a.png'')"
    "fst (try_body sample_lib (path_join ''in'' ''a.png'') 50 ''out'' ''a.png'' sample_ready) = None"
    "isfile ?later (path_join ''in'' ''a.jpg'')"
    "fst (try_body sample_lib (path_join ''in'' ''a.jpg'') 50 ''out'' ''a.jpg'' ?later) = None"
    "cwd ?later = cwd sample_ready"
    by simp_all
  from same_stem_later_file_overwrites [OF h]
  have "\<exists>c1 c2.
         files (process_entry sample_lib ''in'' 50 ''out'' ''a.png'' sample_ready)
           = (files sample_ready)
               (resolve sample_ready (path_join ''out'' (fst (splitext ''a.png'') @ ''.webp'')) \<mapsto> c1)
       \<and> files (process_entry sample_lib ''in'' 50 ''out'' ''a.jpg'' ?later)
           = (files ?later)
               (resolve sample_ready (path_join ''out'' (fst (splitext ''a.png'') @ ''.webp'')) \<mapsto> c2)"
    by blast
  with ev show ?thesis by blast
qed

text \<open>
  C8. Let a run complete, with an output directory that is not the source directory
  and with proper entry names listed for the source. Then a second run with the same
  arguments on the resulting world completes too, and every file of the world has the
  same bytes after it as before it: the second run writes again exactly what the first
  wrote. The decoder, the resampling and the encoder are functions of their input.
\<close>

theorem second_run_reproduces_files:
  assumes run1: "process_source_images lib src s out w = (None, w1)"
    and diff: "resolve w out \<noteq> resolve w src"
    and listed: "\<forall>names. listdir (snd (makedirs w out)) src = Inr names
                   \<longrightarrow> (\<forall>f \<in> set names. proper_name f)"
  shows "\<exists>w2. process_source_images lib src s out w1 = (None, w2) \<and> files w2 = files w1"
proof -
  have isd: "isdir w src"
    using run1 by (cases "isdir w src") (simp_all add: process_source_images_def)
  obtain r wa where mk0: "makedirs w out = (r, wa)" by (cases "makedirs w out")
  have mk: "makedirs w out = (None, wa)"
    using run1 isd mk0 by (cases r) (simp_all add: process_source_images_def)
  obtain names where ls: "listdir wa src = Inr names"
    using run1 isd mk by (cases "listdir wa src") (simp_all add: process_source_images_def)
  have w1: "w1 = print_line (''Done. Output in: '' @ out) (process_entries lib src s out names wa)"
    using run1 isd mk ls by (simp add: process_source_images_def)
  let ?d = "resolve w out" and ?S = "resolve w src"
  let ?wb = "process_entries lib src s out names wa"
  have one: "out \<noteq> []"
    using mk by (cases "out = []") (simp_all add: makedirs_def)
  obtain r' m' where mka0: "makedirs_at ?d (fs w) = (r', m')" by (cases "makedirs_at ?d (fs w)")
  have wa: "r' = None" "wa = w\<lparr>fs := m'\<rparr>"
    using mk one mka0 by (simp_all add: makedirs_def)
  have cwa: "cwd wa = cwd w" and mka: "makedirs_at ?d (fs w) = (None, fs wa)"
    using mka0 wa by simp_all
  have srcne: "src \<noteq> []" using isd by (auto simp: isdir_def stat_def)
  have ra: "resolve wa out = ?d" "resolve wa src \<noteq> ?d" "resolve wa src = ?S"
    using diff resolve_cwd [OF cwa] by simp_all
  have da: "is_directory (fs wa ?d)" and pa: "?d = [] \<or> fs wa (butlast ?d) \<noteq> None"
    using makedirs_at_made [OF mka] by blast+
  have proper: "\<forall>f \<in> set names. proper_name f"
    using listed mk ls by simp
  have isda: "isdir wa src" by (rule makedirs_keeps_isdir [OF isd mk])
  then have sdir: "is_directory (fs wa ?S)"
    using srcne ra(3) by (auto simp: isdir_def stat_def is_directory_def split: option.splits node.splits)
  have ag: "agree_outside ?d wa w1"
    unfolding w1 using entries_frame [OF da ra(1) proper one] by simp
  have c1: "cwd w1 = cwd w" using agree_cwd [OF ag] cwa by simp
  have r1: "resolve w1 out = ?d" "resolve w1 src = ?S"
    using resolve_cwd [OF c1] by simp_all
  have "fs wa ?S = fs w1 ?S"
    using diff sdir by (intro agree_at [OF ag]) auto
  then have st: "stat w1 src = stat wa src"
    using r1(2) ra(3) by (simp add: stat_def)
  have isd1: "isdir w1 src" and ls1: "listdir w1 src = Inr names"
    using isda ls st by (simp_all add: isdir_def listdir_def)
  have d1: "is_directory (fs w1 ?d)" using agree_dir [OF ag] by blast
  have p1: "?d = [] \<or> fs w1 (butlast ?d) \<noteq> None"
  proof (cases "?d = []")
    case False
    have "fs wa (butlast ?d) = fs w1 (butlast ?d)"
      using butlast_neq [OF False] butlast_butlast_neq [OF False]
      by (intro agree_at [OF ag]) auto
    then show ?thesis using pa False by simp
  qed simp
  have "makedirs_at ?d (fs w1) = (None, fs w1)"
    by (rule makedirs_at_existing [OF d1 p1])
  then have mk1: "makedirs w1 out = (None, w1)"
    using one r1(1) by (simp add: makedirs_def)
  let ?w2 = "print_line (''Done. Output in: '' @ out) (process_entries lib src s out names w1)"
  have run2: "process_source_images lib src s out w1 = (None, ?w2)"
    using isd1 mk1 ls1 by (simp add: process_source_images_def)
  from entries_steps [OF ag ra(1,2) proper one srcne, of lib s]
  obtain U where U: "files ?wb = files wa ++ U"
    "files (process_entries lib src s out names w1) = files w1 ++ U"
    by blast
  have "files w1 = files wa ++ U" using U(1) by (simp add: w1)
  then have "files ?w2 = files w1" using U(2) by (simp add: map_add_twice)
  with run2 show ?thesis by blast
qed

theorem second_run_reproduces_files_witness:
  "process_source_images sample_lib ''in'' 50 ''out'' sample_world = (None, sample_done)
   \<and> resolve sample_world ''out'' \<noteq> resolve sample_world ''in''
   \<and> listdir (snd (makedirs sample_world ''out'')) ''in''
       = Inr [''a.png'', ''b.txt'', ''sub'', ''a.jpg'', ''gone'']
   \<and> (\<exists>w2. process_source_images sample_lib ''in'' 50 ''out'' sample_done = (None, w2)
            \<and> files w2 = files sample_done)
   \<and> files sample_done [''home'', ''u'', ''out'', ''a.webp''] = Some [50, 50, 91, 75]"
proof -
  have ev:
    "fst (process_source_images sample_lib ''in'' 50 ''out'' sample_world) = None
     \<and> resolve sample_world ''out'' \<noteq> resolve sample_world ''in''
     \<and> listdir (snd (makedirs sample_world ''out'')) ''in''
         = Inr [''a.png'', ''b.txt'', ''sub'', ''a.jpg'', ''gone'']
     \<and> (\<forall>f \<in> set [''a.png'', ''b.txt'', ''sub'', ''a.jpg'', ''gone'']. proper_name f)
     \<and> files sample_done [''home'', ''u'', ''out'', ''a.webp''] = Some [50, 50, 91, 75]"
    by code_simp
  then have run1: "process_source_images sample_lib ''in'' 50 ''out'' sample_world = (None, sample_done)"
    by (simp add: sample_done_def prod_eq_iff)
  from ev have diff: "resolve sample_world ''out'' \<noteq> resolve sample_world ''in''"
    by blast
  from ev have listed: "\<forall>names. listdir (snd (makedirs sample_world ''out'')) ''in'' = Inr names
                   \<longrightarrow> (\<forall>f \<in> set names. proper_name f)"
    by auto
  from second_run_reproduces_files [OF run1 diff listed]
  have "\<exists>w2. process_source_images sample_lib ''in'' 50 ''out'' sample_done = (None, w2)
            \<and> files w2 = files sample_done" .
  with ev run1 show ?thesis by blast
qed

end
